theory Spec2Isabelle
  imports Main "HOL-Library.Word" "HOL-Library.Finite_Map" "HOL-Library.Monad_Syntax"
begin

section \<open>The UTXO viewpoint (core/blockchain/utxo.go)\<close>

subsection \<open>Data model\<close>

text \<open>
  A \<open>hash.Hash\<close> is a 32-byte digest. Only equality of hashes and, in the DAG engine, the
  order of their printed form are observed, so a hash is modelled by the number it denotes.
\<close>

type_synonym hash = nat

text \<open>\<open>types.TxType\<close> is an integer enumeration declared outside the files at hand.\<close>

type_synonym TxType = nat

definition TxTypeRegular :: TxType where
  "TxTypeRegular = 0"

datatype error =
    AssertError
  | ErrCorruption
  | DeserializeError
  | OtherError

record utxoOutput =
  scriptVersion :: "16 word"
  pkScript :: "8 word list"
  amount :: "64 word"
  spent :: bool

text \<open>
  The struct \<open>UtxoEntry\<close> is declared outside the files at hand; its fields are the ones
  \<open>newUtxoEntry\<close> sets, together with the \<open>modified\<close> flag. The Go maps hold pointers; every
  pointer stored by the functions below is freshly allocated or already owned by the same
  key, so the maps are modelled by value. A key bound to a nil pointer is \<open>Some None\<close>.
\<close>

record UtxoEntry =
  sparseOutputs :: "(32 word, utxoOutput) fmap"
  txVersion :: "32 word"
  order :: "32 word"
  index :: "32 word"
  isCoinBase :: bool
  hasExpiry :: bool
  txType :: TxType
  modified :: bool

record UtxoViewpoint =
  entries :: "(hash, UtxoEntry option) fmap"
  bestHash :: hash

record TxOutPoint =
  Hash :: hash
  OutIndex :: "32 word"

record TxInput =
  PreviousOut :: TxOutPoint
  AmountIn :: "64 word"

record TxOutput =
  Amount :: "64 word"
  PkScript :: "8 word list"

text \<open>A \<open>types.Tx\<close>: the cached hash together with the wire transaction.\<close>

record Tx =
  txHash :: hash
  Version :: "32 word"
  TxIn :: "TxInput list"
  TxOut :: "TxOutput list"
  Expire :: "32 word"

record SerializedBlock =
  blockHash :: hash
  blockParents :: "hash list"
  blockOrder :: "64 word"
  Transactions :: "Tx list"

record SpentTxOut =
  stxo_amount :: "64 word"
  stxo_scriptVersion :: "16 word"
  stxo_pkScript :: "8 word list"
  stxo_txIndex :: "32 word"
  stxo_inIndex :: "32 word"
  stxo_txVersion :: "32 word"
  stxo_order :: "32 word"
  stxo_isCoinBase :: bool
  stxo_hasExpiry :: bool
  stxo_txType :: TxType
  stxo_txFullySpent :: bool

text \<open>
  The helpers \<open>txscript.IsUnspendable\<close>, \<open>Transaction.IsCoinBaseTx\<close> and
  \<open>types.DetermineTxType\<close> live in another module; the functions below take them as
  parameters, collected in one record.
\<close>

record txlib =
  IsUnspendable :: "64 word \<Rightarrow> 8 word list \<Rightarrow> bool"
  IsCoinBaseTx :: "Tx \<Rightarrow> bool"
  DetermineTxType :: "Tx \<Rightarrow> TxType"

text \<open>
  The storage collaborator: the raw bytes of the utxo bucket and the decoder of an entry
  (\<open>deserializeUtxoEntry\<close>, defined outside the files at hand).
\<close>

record utxodb =
  utxoBucketGet :: "hash \<Rightarrow> 8 word list option"
  deserializeUtxoEntry :: "8 word list \<Rightarrow> error + UtxoEntry"

subsection \<open>Entries\<close>

definition NewUtxoViewpoint :: UtxoViewpoint where
  "NewUtxoViewpoint = \<lparr>entries = fmempty, bestHash = 0\<rparr>"

definition newUtxoEntry ::
  "32 word \<Rightarrow> 32 word \<Rightarrow> 32 word \<Rightarrow> bool \<Rightarrow> bool \<Rightarrow> TxType \<Rightarrow> UtxoEntry" where
  "newUtxoEntry v ord idx cb ex tt =
     \<lparr>sparseOutputs = fmempty, txVersion = v, order = ord, index = idx,
      isCoinBase = cb, hasExpiry = ex, txType = tt, modified = False\<rparr>"

text \<open>
  Modelled from the spec: the methods of \<open>UtxoEntry\<close> (\<open>IsFullySpent\<close>, \<open>SpendOutput\<close> and
  the by-index getters) are not in the files at hand. An entry is fully spent when it has
  no unspent output; spending marks the referenced output spent and the entry modified;
  the getters read the named output and give the zero value when it is missing.
\<close>

definition IsFullySpent :: "UtxoEntry \<Rightarrow> bool" where
  "IsFullySpent e = fmpred (\<lambda>_ out. spent out) (sparseOutputs e)"

definition SpendOutput :: "UtxoEntry \<Rightarrow> 32 word \<Rightarrow> UtxoEntry" where
  "SpendOutput e i =
     (case fmlookup (sparseOutputs e) i of
        None \<Rightarrow> e
      | Some out \<Rightarrow>
          if spent out then e
          else e\<lparr>sparseOutputs := fmupd i (out\<lparr>spent := True\<rparr>) (sparseOutputs e),
                 modified := True\<rparr>)"

definition AmountByIndex :: "UtxoEntry \<Rightarrow> 32 word \<Rightarrow> 64 word" where
  "AmountByIndex e i = (case fmlookup (sparseOutputs e) i of None \<Rightarrow> 0 | Some out \<Rightarrow> amount out)"

definition ScriptVersionByIndex :: "UtxoEntry \<Rightarrow> 32 word \<Rightarrow> 16 word" where
  "ScriptVersionByIndex e i =
     (case fmlookup (sparseOutputs e) i of None \<Rightarrow> 0 | Some out \<Rightarrow> scriptVersion out)"

definition PkScriptByIndex :: "UtxoEntry \<Rightarrow> 32 word \<Rightarrow> 8 word list" where
  "PkScriptByIndex e i =
     (case fmlookup (sparseOutputs e) i of None \<Rightarrow> [] | Some out \<Rightarrow> pkScript out)"

text \<open>
  \<open>LookupEntry\<close> and the plain map read \<open>view.entries[h]\<close> both give a pointer: nil when the
  key is absent and also when it is bound to nil.
\<close>

definition LookupEntry :: "UtxoViewpoint \<Rightarrow> hash \<Rightarrow> UtxoEntry option" where
  "LookupEntry view h =
     (case fmlookup (entries view) h of None \<Rightarrow> None | Some entry \<Rightarrow> entry)"

subsection \<open>AddTxOuts\<close>

text \<open>The loop over \<open>TxOut\<close>; \<open>n\<close> is the index of the first output of the remaining list.\<close>

fun addOutputs ::
  "txlib \<Rightarrow> nat \<Rightarrow> TxOutput list \<Rightarrow> (32 word, utxoOutput) fmap \<Rightarrow> (32 word, utxoOutput) fmap" where
  "addOutputs lib n [] outs = outs"
| "addOutputs lib n (txOut # rest) outs =
     (if IsUnspendable lib (Amount txOut) (PkScript txOut) then addOutputs lib (Suc n) rest outs
      else case fmlookup outs (of_nat n) of
          Some output \<Rightarrow>
            addOutputs lib (Suc n) rest
              (fmupd (of_nat n)
                 (output\<lparr>spent := False, amount := Amount txOut, pkScript := PkScript txOut\<rparr>) outs)
        | None \<Rightarrow>
            addOutputs lib (Suc n) rest
              (fmupd (of_nat n)
                 \<lparr>scriptVersion = 0, pkScript = PkScript txOut, amount = Amount txOut,
                  spent = False\<rparr> outs))"

definition AddTxOuts :: "txlib \<Rightarrow> UtxoViewpoint \<Rightarrow> Tx \<Rightarrow> 64 word \<Rightarrow> 32 word \<Rightarrow> UtxoViewpoint" where
  "AddTxOuts lib view theTx blkOrder blkIndex =
     (let entry0 =
            (case LookupEntry view (txHash theTx) of
               None \<Rightarrow>
                 newUtxoEntry (Version theTx) (ucast blkOrder) blkIndex (IsCoinBaseTx lib theTx)
                   (Expire theTx \<noteq> 0) (DetermineTxType lib theTx)
             | Some e \<Rightarrow> e\<lparr>order := ucast blkOrder, index := blkIndex\<rparr>);
          entry1 = entry0\<lparr>modified := True\<rparr>;
          entry2 = entry1\<lparr>sparseOutputs := addOutputs lib 0 (TxOut theTx) (sparseOutputs entry1)\<rparr>
      in view\<lparr>entries := fmupd (txHash theTx) (Some entry2) (entries view)\<rparr>)"

subsection \<open>Loading from the store\<close>

definition dbFetchUtxoEntry :: "utxodb \<Rightarrow> hash \<Rightarrow> error + UtxoEntry option" where
  "dbFetchUtxoEntry db h =
     (case utxoBucketGet db h of
        None \<Rightarrow> Inr None
      | Some serializedUtxo \<Rightarrow>
          if length serializedUtxo = 0 then Inl AssertError
          else (case deserializeUtxoEntry db serializedUtxo of
              Inl err \<Rightarrow> (if err = DeserializeError then Inl ErrCorruption else Inl err)
            | Inr entry \<Rightarrow> Inr (Some entry)))"

text \<open>
  The requested set is a Go map; the list gives its keys in the order the \<open>range\<close> loop
  happens to visit them.
\<close>

fun fetchLoop :: "utxodb \<Rightarrow> hash list \<Rightarrow> UtxoViewpoint \<Rightarrow> error + UtxoViewpoint" where
  "fetchLoop db [] view = Inr view"
| "fetchLoop db (h # rest) view =
     (if fmlookup (entries view) h \<noteq> None then fetchLoop db rest view
      else case dbFetchUtxoEntry db h of
          Inl err \<Rightarrow> Inl err
        | Inr entry \<Rightarrow> fetchLoop db rest (view\<lparr>entries := fmupd h entry (entries view)\<rparr>))"

definition fetchUtxosMain :: "utxodb \<Rightarrow> UtxoViewpoint \<Rightarrow> hash list \<Rightarrow> error + UtxoViewpoint" where
  "fetchUtxosMain db view txSet =
     (if length txSet = 0 then Inr view else fetchLoop db txSet view)"

subsection \<open>The spend journal lookup\<close>

definition zeroSpentTxOut :: SpentTxOut where
  "zeroSpentTxOut =
     \<lparr>stxo_amount = 0, stxo_scriptVersion = 0, stxo_pkScript = [], stxo_txIndex = 0,
      stxo_inIndex = 0, stxo_txVersion = 0, stxo_order = 0, stxo_isCoinBase = False,
      stxo_hasExpiry = False, stxo_txType = 0, stxo_txFullySpent = False\<rparr>"

text \<open>The scan of \<open>GetSpentTxOut\<close>: \<open>result\<close> starts as the zero record.\<close>

fun scanSpentTxOut :: "32 word \<Rightarrow> 32 word \<Rightarrow> SpentTxOut list \<Rightarrow> SpentTxOut \<Rightarrow> SpentTxOut" where
  "scanSpentTxOut ti ii [] result = result"
| "scanSpentTxOut ti ii (stxo # rest) result =
     (if stxo_txIndex stxo = ti \<and> stxo_inIndex stxo = ii then stxo
      else scanSpentTxOut ti ii rest result)"

text \<open>The returned pointer: \<open>None\<close> is nil.\<close>

definition GetSpentTxOut :: "nat \<Rightarrow> nat \<Rightarrow> SpentTxOut list \<Rightarrow> SpentTxOut option" where
  "GetSpentTxOut txIndex inIndex stxos =
     (if length stxos = 0 then None
      else Some (scanSpentTxOut (of_nat txIndex) (of_nat inIndex) stxos zeroSpentTxOut))"

subsection \<open>Connecting and disconnecting\<close>

text \<open>
  The loop over the inputs of \<open>connectTransaction\<close>; the journal pointer \<open>stxos\<close> may be nil
  (\<open>None\<close>). An error leaves the loop at once.
\<close>

fun connectInputs ::
  "32 word \<Rightarrow> nat \<Rightarrow> TxInput list \<Rightarrow> UtxoViewpoint \<Rightarrow> SpentTxOut list option
     \<Rightarrow> error + (UtxoViewpoint \<times> SpentTxOut list option)" where
  "connectInputs blkIndex inIndex [] view stxos = Inr (view, stxos)"
| "connectInputs blkIndex inIndex (txIn # rest) view stxos =
     (let originIndex = OutIndex (PreviousOut txIn)
      in case LookupEntry view (Hash (PreviousOut txIn)) of
          None \<Rightarrow> Inl AssertError
        | Some entry0 \<Rightarrow>
            (let entry = SpendOutput entry0 originIndex;
                 view' = view\<lparr>entries := fmupd (Hash (PreviousOut txIn)) (Some entry) (entries view)\<rparr>
             in case stxos of
                 None \<Rightarrow> connectInputs blkIndex (Suc inIndex) rest view' None
               | Some journal \<Rightarrow>
                   (let stxo =
                          \<lparr>stxo_amount = AmountByIndex entry originIndex,
                           stxo_scriptVersion = ScriptVersionByIndex entry originIndex,
                           stxo_pkScript = PkScriptByIndex entry originIndex,
                           stxo_txIndex = blkIndex,
                           stxo_inIndex = of_nat inIndex,
                           stxo_txVersion = txVersion entry,
                           stxo_order = order entry,
                           stxo_isCoinBase = isCoinBase entry,
                           stxo_hasExpiry = hasExpiry entry,
                           stxo_txType = txType entry,
                           stxo_txFullySpent = IsFullySpent entry\<rparr>
                    in connectInputs blkIndex (Suc inIndex) rest view' (Some (journal @ [stxo])))))"

definition connectTransaction ::
  "txlib \<Rightarrow> UtxoViewpoint \<Rightarrow> Tx \<Rightarrow> 64 word \<Rightarrow> 32 word \<Rightarrow> SpentTxOut list option
     \<Rightarrow> error + (UtxoViewpoint \<times> SpentTxOut list option)" where
  "connectTransaction lib view tx blkOrder blkIndex stxos =
     (if IsCoinBaseTx lib tx then Inr (AddTxOuts lib view tx blkOrder blkIndex, stxos)
      else case connectInputs blkIndex 0 (TxIn tx) view stxos of
          Inl err \<Rightarrow> Inl err
        | Inr (view', stxos') \<Rightarrow> Inr (AddTxOuts lib view' tx blkOrder blkIndex, stxos'))"

text \<open>
  The inner loop of \<open>disconnectTransactions\<close>, from the last input down: \<open>ins\<close> holds the
  inputs in reverse, so its head is input number \<open>length ins - 1\<close>.
\<close>

fun disconnectInputs ::
  "Tx \<Rightarrow> nat \<Rightarrow> SpentTxOut list \<Rightarrow> TxInput list \<Rightarrow> UtxoViewpoint \<Rightarrow> error + UtxoViewpoint" where
  "disconnectInputs tx txIdx stxos [] view = Inr view"
| "disconnectInputs tx txIdx stxos (txIn # ins) view =
     (case GetSpentTxOut txIdx (length ins) stxos of
        None \<Rightarrow> disconnectInputs tx txIdx stxos ins view
      | Some stxo \<Rightarrow>
          (let originHash = Hash (PreviousOut txIn);
               originIndex = OutIndex (PreviousOut txIn)
           in case (case LookupEntry view originHash of
                      None \<Rightarrow>
                        if \<not> stxo_txFullySpent stxo then Inl AssertError
                        else Inr (newUtxoEntry (Version tx) (stxo_order stxo) (stxo_txIndex stxo)
                                    (stxo_isCoinBase stxo) (stxo_hasExpiry stxo) (stxo_txType stxo))
                    | Some e \<Rightarrow> Inr e) of
               Inl err \<Rightarrow> Inl err
             | Inr entry0 \<Rightarrow>
                 (let entry = entry0\<lparr>modified := True\<rparr>;
                      outs =
                        (case fmlookup (sparseOutputs entry) originIndex of
                           None \<Rightarrow>
                             fmupd originIndex
                               \<lparr>scriptVersion = stxo_scriptVersion stxo,
                                pkScript = stxo_pkScript stxo,
                                amount = stxo_amount stxo, spent = False\<rparr>
                               (sparseOutputs entry)
                         | Some output \<Rightarrow>
                             fmupd originIndex (output\<lparr>spent := False\<rparr>) (sparseOutputs entry))
                  in disconnectInputs tx txIdx stxos ins
                       (view\<lparr>entries :=
                          fmupd originHash (Some (entry\<lparr>sparseOutputs := outs\<rparr>)) (entries view)\<rparr>))))"

text \<open>
  The outer loop, from the last transaction down: \<open>txs\<close> holds the transactions in reverse,
  so its head is transaction number \<open>length txs - 1\<close>.
\<close>

fun disconnectLoop ::
  "SerializedBlock \<Rightarrow> SpentTxOut list \<Rightarrow> Tx list \<Rightarrow> UtxoViewpoint \<Rightarrow> error + UtxoViewpoint" where
  "disconnectLoop block stxos [] view = Inr view"
| "disconnectLoop block stxos (tx # txs) view =
     (let txIdx = length txs;
          isCoinbase = (txIdx = 0);
          entry0 =
            (case LookupEntry view (txHash tx) of
               None \<Rightarrow>
                 newUtxoEntry (Version tx) (ucast (blockOrder block)) (of_nat txIdx) isCoinbase
                   (Expire tx \<noteq> 0) TxTypeRegular
             | Some e \<Rightarrow> e);
          entry = entry0\<lparr>modified := True, sparseOutputs := fmempty\<rparr>;
          view1 = view\<lparr>entries := fmupd (txHash tx) (Some entry) (entries view)\<rparr>
      in if isCoinbase then disconnectLoop block stxos txs view1
         else case disconnectInputs tx txIdx stxos (rev (TxIn tx)) view1 of
             Inl err \<Rightarrow> Inl err
           | Inr view2 \<Rightarrow> disconnectLoop block stxos txs view2)"

definition disconnectTransactions ::
  "UtxoViewpoint \<Rightarrow> SerializedBlock \<Rightarrow> SpentTxOut list \<Rightarrow> error + UtxoViewpoint" where
  "disconnectTransactions view block stxos =
     (case disconnectLoop block stxos (rev (Transactions block)) view of
        Inl err \<Rightarrow> Inl err
      | Inr view' \<Rightarrow> Inr (view'\<lparr>bestHash := blockHash block\<rparr>))"

subsection \<open>commit\<close>

text \<open>
  \<open>commit\<close> visits every key once; a key is deleted when its entry is nil or is modified and
  fully spent, and every other entry has its \<open>modified\<close> flag cleared.
\<close>

definition commitKeeps :: "UtxoEntry option \<Rightarrow> bool" where
  "commitKeeps entry =
     (case entry of None \<Rightarrow> False | Some e \<Rightarrow> \<not> (modified e \<and> IsFullySpent e))"

definition commit :: "UtxoViewpoint \<Rightarrow> UtxoViewpoint" where
  "commit view =
     view\<lparr>entries :=
       fmmap (map_option (\<lambda>e. e\<lparr>modified := False\<rparr>))
         (fmfilter (\<lambda>h. case fmlookup (entries view) h of None \<Rightarrow> False
                        | Some entry \<Rightarrow> commitKeeps entry) (entries view))\<rparr>"


subsection \<open>The behaviour the specification asks of \<open>add_tx_outs\<close>\<close>

text \<open>
  The specification's wording of \<open>add_tx_outs\<close>, for comparison with \<open>AddTxOuts\<close>: an
  existing entry that still has an unspent output is not replaced; the call is rejected.
\<close>

datatype spec_error = DuplicateLiveTx

definition add_tx_outs_spec ::
  "txlib \<Rightarrow> UtxoViewpoint \<Rightarrow> Tx \<Rightarrow> 64 word \<Rightarrow> 32 word \<Rightarrow> spec_error + UtxoViewpoint" where
  "add_tx_outs_spec lib view theTx blkOrder blkIndex =
     (case LookupEntry view (txHash theTx) of
        None \<Rightarrow> Inr (AddTxOuts lib view theTx blkOrder blkIndex)
      | Some e \<Rightarrow>
          if IsFullySpent e then Inr (AddTxOuts lib view theTx blkOrder blkIndex)
          else Inl DuplicateLiveTx)"

subsection \<open>Connecting a block transaction by transaction\<close>

text \<open>
  \<open>connectTransaction\<close> called for each transaction of a list in order, the block index
  counting up from \<open>i\<close>, all calls sharing one journal.
\<close>

fun connectEach ::
  "txlib \<Rightarrow> 64 word \<Rightarrow> nat \<Rightarrow> Tx list \<Rightarrow> UtxoViewpoint \<Rightarrow> SpentTxOut list option
     \<Rightarrow> error + (UtxoViewpoint \<times> SpentTxOut list option)" where
  "connectEach lib ord i [] view stxos = Inr (view, stxos)"
| "connectEach lib ord i (tx # txs) view stxos =
     (case connectTransaction lib view tx ord (of_nat i) stxos of
        Inl err \<Rightarrow> Inl err
      | Inr (view', stxos') \<Rightarrow> connectEach lib ord (Suc i) txs view' stxos')"

subsection \<open>Resolvable inputs and the round trip\<close>

text \<open>
  An input is spendable in a view when the view holds a non-nil entry for the referenced
  transaction and that entry has the referenced output, unspent. \<open>spendInput\<close> is what one
  round of the input loop of \<open>connectTransaction\<close> does to the view.
\<close>

definition outpoint :: "TxInput \<Rightarrow> hash \<times> 32 word" where
  "outpoint txIn = (Hash (PreviousOut txIn), OutIndex (PreviousOut txIn))"

definition spendable :: "UtxoViewpoint \<Rightarrow> TxInput \<Rightarrow> bool" where
  "spendable view txIn =
     (case LookupEntry view (Hash (PreviousOut txIn)) of
        None \<Rightarrow> False
      | Some e \<Rightarrow>
          (case fmlookup (sparseOutputs e) (OutIndex (PreviousOut txIn)) of
             None \<Rightarrow> False
           | Some out \<Rightarrow> \<not> spent out))"

definition spendInput :: "UtxoViewpoint \<Rightarrow> TxInput \<Rightarrow> UtxoViewpoint" where
  "spendInput view txIn =
     (case LookupEntry view (Hash (PreviousOut txIn)) of
        None \<Rightarrow> view
      | Some e \<Rightarrow>
          view\<lparr>entries := fmupd (Hash (PreviousOut txIn))
                             (Some (SpendOutput e (OutIndex (PreviousOut txIn)))) (entries view)\<rparr>)"

text \<open>
  The inputs of a block are resolvable in a view when every input of every transaction
  that is not a coinbase is spendable at the moment the connection of the block, taken
  transaction by transaction and input by input, reaches it.
\<close>

fun spendableIns :: "TxInput list \<Rightarrow> UtxoViewpoint \<Rightarrow> bool" where
  "spendableIns [] view = True"
| "spendableIns (txIn # rest) view = (spendable view txIn \<and> spendableIns rest (spendInput view txIn))"

fun inputsResolvable :: "txlib \<Rightarrow> 64 word \<Rightarrow> nat \<Rightarrow> Tx list \<Rightarrow> UtxoViewpoint \<Rightarrow> bool" where
  "inputsResolvable lib ord i [] view = True"
| "inputsResolvable lib ord i (tx # txs) view =
     (if IsCoinBaseTx lib tx then inputsResolvable lib ord (Suc i) txs (AddTxOuts lib view tx ord (of_nat i))
      else spendableIns (TxIn tx) view \<and>
           inputsResolvable lib ord (Suc i) txs
             (AddTxOuts lib (foldl spendInput view (TxIn tx)) tx ord (of_nat i)))"

text \<open>
  The shape of a block: the first transaction is the coinbase, no other is. The hashes of
  the transactions of a block are free in a view when \<open>commit\<close> leaves no entry under
  any of them: the view has no entry there, or a nil one, or one that is modified and
  fully spent.
\<close>

definition coinbaseFirst :: "txlib \<Rightarrow> Tx list \<Rightarrow> bool" where
  "coinbaseFirst lib txs =
     (case txs of [] \<Rightarrow> True
      | cb # rest \<Rightarrow> IsCoinBaseTx lib cb \<and> list_all (\<lambda>t. \<not> IsCoinBaseTx lib t) rest)"

definition hashesFree :: "UtxoViewpoint \<Rightarrow> Tx list \<Rightarrow> bool" where
  "hashesFree view txs = list_all (\<lambda>t. fmlookup (entries (commit view)) (txHash t) = None) txs"

text \<open>
  The round trip: connect the transactions of the block one by one with an empty journal,
  disconnect the block with the journal recorded, commit.
\<close>

definition roundTrip :: "txlib \<Rightarrow> 64 word \<Rightarrow> UtxoViewpoint \<Rightarrow> SerializedBlock \<Rightarrow> error + UtxoViewpoint" where
  "roundTrip lib ord view block =
     (case connectEach lib ord 0 (Transactions block) view (Some []) of
        Inl err \<Rightarrow> Inl err
      | Inr (view1, stxos) \<Rightarrow>
          (case stxos of
             None \<Rightarrow> Inl AssertError
           | Some journal \<Rightarrow>
               (case disconnectTransactions view1 block journal of
                  Inl err \<Rightarrow> Inl err
                | Inr view2 \<Rightarrow> Inr (commit view2))))"

subsection \<open>Notions of the round-trip proof\<close>

text \<open>
  Two entries agree in their header when they differ at most in the \<open>modified\<close> flag and
  in the outputs. An outpoint is unspent in a view when the view holds it, unspent.
\<close>

definition hdrEq :: "UtxoEntry \<Rightarrow> UtxoEntry \<Rightarrow> bool" where
  "hdrEq e e' = (e'\<lparr>modified := modified e, sparseOutputs := sparseOutputs e\<rparr> = e)"

definition unspentIn :: "UtxoViewpoint \<Rightarrow> hash \<times> 32 word \<Rightarrow> bool" where
  "unspentIn V p = (\<exists>e out. LookupEntry V (fst p) = Some e \<and> fmlookup (sparseOutputs e) (snd p) = Some out \<and> \<not> spent out)"

text \<open>
  The relation between the value \<open>x\<close> a working view holds at a hash \<open>h\<close> outside the block
  and the original view \<open>V\<close>: where \<open>V\<close> has no entry nothing has changed; where it has
  one, the working entry has the same header and the same outputs, except that an output
  whose outpoint is in \<open>P\<close> may have been marked spent; an entry that was touched has an
  unspent output in \<open>V\<close>.
\<close>

definition extRel :: "UtxoViewpoint \<Rightarrow> (hash \<times> 32 word) set \<Rightarrow> hash \<Rightarrow> UtxoEntry option option \<Rightarrow> bool" where
  "extRel V P h x =
     (case LookupEntry V h of
        None \<Rightarrow> x = fmlookup (entries V) h
      | Some e \<Rightarrow>
          (\<exists>e'. x = Some (Some e') \<and> hdrEq e e' \<and>
             (\<forall>idx. fmlookup (sparseOutputs e') idx = fmlookup (sparseOutputs e) idx \<or>
                ((h, idx) \<in> P \<and>
                 (\<exists>out. fmlookup (sparseOutputs e) idx = Some out \<and> \<not> spent out \<and>
                    fmlookup (sparseOutputs e') idx = Some (out\<lparr>spent := True\<rparr>)))) \<and>
             (e' \<noteq> e \<longrightarrow> \<not> IsFullySpent e)))"

text \<open>
  The invariant of connection and disconnection: \<open>HB\<close> are the hashes of the block, \<open>D\<close>
  those of the transactions connected so far, for which the working view holds an entry,
  \<open>P\<close> the outpoints that may be marked spent. Under the other hashes of the block the
  working view has no entry with an unspent output.
\<close>

definition INV :: "UtxoViewpoint \<Rightarrow> hash set \<Rightarrow> hash set \<Rightarrow> (hash \<times> 32 word) set \<Rightarrow> UtxoViewpoint \<Rightarrow> bool" where
  "INV V HB D P W =
     ((\<forall>h. h \<notin> HB \<longrightarrow> extRel V P h (fmlookup (entries W) h)) \<and>
      (\<forall>h \<in> D. LookupEntry W h \<noteq> None) \<and>
      (\<forall>h \<in> HB - D. \<forall>e. LookupEntry W h = Some e \<longrightarrow> IsFullySpent e))"

text \<open>The outpoints the connection of a transaction list spends.\<close>

definition pending :: "txlib \<Rightarrow> Tx list \<Rightarrow> (hash \<times> 32 word) set" where
  "pending lib txs = (\<Union>t \<in> {t \<in> set txs. \<not> IsCoinBaseTx lib t}. outpoint ` set (TxIn t))"

text \<open>
  Every input of a transaction that is not a coinbase refers to an earlier transaction of
  the block or to an outpoint that is unspent in \<open>V\<close>; \<open>D\<close> are the hashes of the earlier
  transactions.
\<close>

fun refsF :: "txlib \<Rightarrow> UtxoViewpoint \<Rightarrow> hash set \<Rightarrow> hash set \<Rightarrow> Tx list \<Rightarrow> bool" where
  "refsF lib V HB D [] = True"
| "refsF lib V HB D (t # ts) =
     ((IsCoinBaseTx lib t \<or>
       (\<forall>txIn \<in> set (TxIn t). fst (outpoint txIn) \<in> D \<or>
          (fst (outpoint txIn) \<notin> HB \<and> unspentIn V (outpoint txIn)))) \<and>
      refsF lib V HB (insert (txHash t) D) ts)"

text \<open>An entry a disconnect has emptied and marked modified.\<close>

definition cleared :: "UtxoViewpoint \<Rightarrow> hash \<Rightarrow> bool" where
  "cleared W h = (\<exists>e. fmlookup (entries W) h = Some (Some e) \<and> sparseOutputs e = fmempty \<and> modified e)"

text \<open>
  The same notions for the disconnect loop, which takes the transactions last to first
  and treats the first transaction of the block, the last of the reversed list, as the
  coinbase.
\<close>

fun refsR :: "UtxoViewpoint \<Rightarrow> hash set \<Rightarrow> Tx list \<Rightarrow> bool" where
  "refsR V HB [] = True"
| "refsR V HB (t # r) =
     ((r = [] \<or>
       (\<forall>txIn \<in> set (TxIn t). fst (outpoint txIn) \<in> set (map txHash r) \<or>
          (fst (outpoint txIn) \<notin> HB \<and> unspentIn V (outpoint txIn)))) \<and>
      refsR V HB r)"

fun pendR :: "Tx list \<Rightarrow> (hash \<times> 32 word) set" where
  "pendR [] = {}"
| "pendR (t # r) = (if r = [] then {} else outpoint ` set (TxIn t)) \<union> pendR r"

fun noInsR :: "Tx list \<Rightarrow> bool" where
  "noInsR [] = True"
| "noInsR (t # r) = ((r = [] \<or> TxIn t = []) \<and> noInsR r)"

subsection \<open>Sample transactions and views\<close>

definition lib0 :: txlib where
  "lib0 =
     \<lparr>IsUnspendable = (\<lambda>a s. a = 0),
      IsCoinBaseTx =
        (\<lambda>tx. case TxIn tx of
                [txIn] \<Rightarrow> Hash (PreviousOut txIn) = 0 \<and> OutIndex (PreviousOut txIn) = - 1
              | _ \<Rightarrow> False),
      DetermineTxType = (\<lambda>tx. TxTypeRegular)\<rparr>"

definition nullIn :: TxInput where
  "nullIn = \<lparr>PreviousOut = \<lparr>Hash = 0, OutIndex = - 1\<rparr>, AmountIn = 0\<rparr>"

text \<open>A coinbase paying 50 units, and the view that holds its single unspent output.\<close>

definition T1 :: Tx where
  "T1 = \<lparr>txHash = 101, Version = 1, TxIn = [nullIn],
          TxOut = [\<lparr>Amount = 50, PkScript = [1]\<rparr>], Expire = 0\<rparr>"

definition view0 :: UtxoViewpoint where
  "view0 = AddTxOuts lib0 (NewUtxoViewpoint\<lparr>bestHash := 11\<rparr>) T1 1 0"

text \<open>The next block, child of block 11: its coinbase and a transaction spending \<open>T1[0]\<close>.\<close>

definition CB2 :: Tx where
  "CB2 = \<lparr>txHash = 201, Version = 1, TxIn = [nullIn],
           TxOut = [\<lparr>Amount = 50, PkScript = [3]\<rparr>], Expire = 0\<rparr>"

definition T2 :: Tx where
  "T2 = \<lparr>txHash = 202, Version = 1,
          TxIn = [\<lparr>PreviousOut = \<lparr>Hash = 101, OutIndex = 0\<rparr>, AmountIn = 50\<rparr>],
          TxOut = [\<lparr>Amount = 25, PkScript = [1]\<rparr>, \<lparr>Amount = 25, PkScript = [2]\<rparr>],
          Expire = 0\<rparr>"

definition block2 :: SerializedBlock where
  "block2 = \<lparr>blockHash = 12, blockParents = [11], blockOrder = 2, Transactions = [CB2, T2]\<rparr>"

text \<open>A second transaction whose hash collides with that of \<open>T1\<close>.\<close>

definition dupTx :: Tx where
  "dupTx = \<lparr>txHash = 101, Version = 1, TxIn = [nullIn],
             TxOut = [\<lparr>Amount = 30, PkScript = [2]\<rparr>], Expire = 0\<rparr>"

text \<open>A block, child of block 11, whose only transaction is that coinbase.\<close>

definition blockDup :: SerializedBlock where
  "blockDup = \<lparr>blockHash = 13, blockParents = [11], blockOrder = 2, Transactions = [dupTx]\<rparr>"

text \<open>A block, child of block 11, whose only transaction is \<open>T2\<close>, which is no coinbase.\<close>

definition blockNoCoinbase :: SerializedBlock where
  "blockNoCoinbase = \<lparr>blockHash = 14, blockParents = [11], blockOrder = 2, Transactions = [T2]\<rparr>"

text \<open>A block, child of block 11, with a second coinbase after \<open>CB2\<close> and \<open>T2\<close>.\<close>

definition CB3 :: Tx where
  "CB3 = \<lparr>txHash = 203, Version = 1, TxIn = [nullIn],
           TxOut = [\<lparr>Amount = 50, PkScript = [4]\<rparr>], Expire = 0\<rparr>"

definition blockTwoCoinbases :: SerializedBlock where
  "blockTwoCoinbases =
     \<lparr>blockHash = 15, blockParents = [11], blockOrder = 2, Transactions = [CB2, T2, CB3]\<rparr>"

text \<open>A journal with a single record, of input 0 of transaction 1.\<close>

definition journal1 :: "SpentTxOut list" where
  "journal1 = [zeroSpentTxOut\<lparr>stxo_amount := 50, stxo_txIndex := 1, stxo_txFullySpent := True\<rparr>]"

text \<open>A store with no entry at all.\<close>

definition emptyDb :: utxodb where
  "emptyDb = \<lparr>utxoBucketGet = (\<lambda>h. None), deserializeUtxoEntry = (\<lambda>bs. Inl DeserializeError)\<rparr>"

section \<open>The DAG engine (src/unnamed/part_000)\<close>

subsection \<open>Block sets\<close>

text \<open>
  Modelled from the spec: the type \<open>BlockSet\<close> is not in the files at hand. It is an
  unordered set of block ids with add, remove, has, len, union, intersection, difference
  and contains. A \<open>range\<close> loop over the underlying Go map visits the keys in an order the
  language leaves open; the model keeps a set as the list of its ids in ascending order
  and visits them in that order, one of the orders the runtime may take. The intersection
  with a nil set is empty.
\<close>

type_synonym BlockSet = "hash list"

definition NewBlockSet :: BlockSet where
  "NewBlockSet = []"

definition Has :: "BlockSet \<Rightarrow> hash \<Rightarrow> bool" where
  "Has s h = (h \<in> set s)"

definition Add :: "BlockSet \<Rightarrow> hash \<Rightarrow> BlockSet" where
  "Add s h = (if h \<in> set s then s else insort h s)"

definition Remove :: "BlockSet \<Rightarrow> hash \<Rightarrow> BlockSet" where
  "Remove s h = filter (\<lambda>k. k \<noteq> h) s"

definition AddSet :: "BlockSet \<Rightarrow> BlockSet \<Rightarrow> BlockSet" where
  "AddSet s other = foldl Add s other"

definition Exclude :: "BlockSet \<Rightarrow> BlockSet \<Rightarrow> BlockSet" where
  "Exclude s other = filter (\<lambda>k. k \<notin> set other) s"

definition Intersection :: "BlockSet \<Rightarrow> BlockSet option \<Rightarrow> BlockSet" where
  "Intersection s other =
     (case other of None \<Rightarrow> [] | Some t \<Rightarrow> filter (\<lambda>k. k \<in> set t) s)"

definition HasOnly :: "BlockSet \<Rightarrow> hash \<Rightarrow> bool" where
  "HasOnly s h = (length s = 1 \<and> h \<in> set s)"

definition IsEqual :: "BlockSet \<Rightarrow> BlockSet \<Rightarrow> bool" where
  "IsEqual s other = (length s = length other \<and> list_all (\<lambda>k. k \<in> set other) s)"

definition Contain :: "BlockSet \<Rightarrow> BlockSet \<Rightarrow> bool" where
  "Contain s other = list_all (\<lambda>k. k \<in> set s) other"

definition hasOpt :: "BlockSet option \<Rightarrow> hash \<Rightarrow> bool" where
  "hasOpt s h = (case s of None \<Rightarrow> False | Some t \<Rightarrow> h \<in> set t)"

subsection \<open>Blocks and the engine state\<close>

text \<open>
  A block as the engine sees it through \<open>IBlock\<close>, and the fields of \<open>BlockDAG\<close>. The
  block index \<open>bc.index\<close> is the association list \<open>nodes\<close>, in insertion order. Pointers
  that may be nil when they are read are options; the hashes of \<open>commonOrder\<close> are pointers
  that a rollback sets to nil.
\<close>

record Block =
  bhash :: hash
  parents :: BlockSet
  children :: BlockSet
  timestamp :: int
  pastSetNum :: nat
  height :: nat

record BlockDAG =
  nodes :: "(hash \<times> Block) list"
  genesis :: hash
  totalBlocks :: nat
  commonBlueSet :: BlockSet
  tempBlueSet :: "BlockSet option"
  lastCommonBlocks :: BlockSet
  commonOrder :: "hash option list"
  tempOrder :: "hash list"
  tips :: "BlockSet option"
  hourglassBlocks :: "BlockSet option"
  lastTime :: int
  anticoneSize :: int

definition GetBlock :: "BlockDAG \<Rightarrow> hash \<Rightarrow> Block option" where
  "GetBlock bd h = map_of (nodes bd) h"

definition updNode :: "hash \<Rightarrow> (Block \<Rightarrow> Block) \<Rightarrow> BlockDAG \<Rightarrow> BlockDAG" where
  "updNode h f bd = bd\<lparr>nodes := map (\<lambda>(k, b). if k = h then (k, f b) else (k, b)) (nodes bd)\<rparr>"

text \<open>
  Every function of the engine that can dereference a nil pointer, index out of range or
  loop returns an option: \<open>None\<close> stands for a run that does not return normally, either
  because of a panic or because the budget \<open>n\<close> of nested calls and loop rounds is used up.
\<close>

datatype dag_error = DuplicateBlock | MissingParents | Aborted

text \<open>
  Modelled from the spec: the block index and its \<open>AddNode\<close> are not in the files at hand.
  Insertion rejects an id that is already present and a block one of whose parents is not
  indexed; otherwise it stores the record and adds the id to the children of each parent.
\<close>

definition AddNode :: "BlockDAG \<Rightarrow> Block \<Rightarrow> dag_error + BlockDAG" where
  "AddNode bd b =
     (if map_of (nodes bd) (bhash b) \<noteq> None then Inl DuplicateBlock
      else if \<not> list_all (\<lambda>p. map_of (nodes bd) p \<noteq> None) (parents b) then Inl MissingParents
      else Inr (bd\<lparr>nodes :=
             map (\<lambda>(k, n). if k \<in> set (parents b) then (k, n\<lparr>children := Add (children n) (bhash b)\<rparr>)
                           else (k, n)) (nodes bd) @ [(bhash b, b)]\<rparr>))"

text \<open>A loop over a list that threads a state and stops when a step does not return.\<close>

fun forEach :: "('a \<Rightarrow> 's \<Rightarrow> 's option) \<Rightarrow> 'a list \<Rightarrow> 's \<Rightarrow> 's option" where
  "forEach f [] s = Some s"
| "forEach f (x # xs) s = (case f x s of None \<Rightarrow> None | Some s' \<Rightarrow> forEach f xs s')"

subsection \<open>Tips\<close>

definition updateTips :: "BlockDAG \<Rightarrow> Block \<Rightarrow> BlockDAG" where
  "updateTips bd b =
     (case tips bd of
        None \<Rightarrow> bd\<lparr>tips := Some (Add NewBlockSet (bhash b)), genesis := bhash b\<rparr>
      | Some ts \<Rightarrow>
          (let isBelong = Has ts (bhash b);
               ts1 = filter (\<lambda>k. case GetBlock bd k of None \<Rightarrow> True
                                  | Some node \<Rightarrow> children node = []) ts;
               ts2 = (if \<not> isBelong then Add ts1 (bhash b) else ts1)
           in bd\<lparr>tips := Some ts2\<rparr>))"

subsection \<open>Future and anticone\<close>

fun GetFutureSet :: "nat \<Rightarrow> BlockDAG \<Rightarrow> BlockSet \<Rightarrow> Block \<Rightarrow> BlockSet option" where
  "GetFutureSet 0 bd fs b = None"
| "GetFutureSet (Suc n) bd fs b =
     forEach (\<lambda>k fs'. if Has fs' k then Some fs'
                       else (case GetBlock bd k of None \<Rightarrow> None
                             | Some c \<Rightarrow> GetFutureSet n bd (Add fs' k) c))
       (children b) fs"

definition isVirtualTip :: "Block \<Rightarrow> BlockSet \<Rightarrow> BlockSet \<Rightarrow> BlockSet \<Rightarrow> bool" where
  "isVirtualTip b futureSet anticone chs =
     list_all (\<lambda>k. k \<noteq> bhash b \<and> (Has futureSet k \<or> Has anticone k)) chs"

fun recAnticone :: "nat \<Rightarrow> BlockDAG \<Rightarrow> Block \<Rightarrow> BlockSet \<Rightarrow> BlockSet \<Rightarrow> hash \<Rightarrow> BlockSet option" where
  "recAnticone 0 bd b futureSet anticone h = None"
| "recAnticone (Suc n) bd b futureSet anticone h =
     (if h = bhash b then Some anticone
      else case GetBlock bd h of
          None \<Rightarrow> None
        | Some node \<Rightarrow>
            (let needRecursion =
                   (if children node = [] then True
                    else isVirtualTip b futureSet anticone (children node))
             in if needRecursion then
                  forEach (\<lambda>k a. recAnticone n bd b futureSet a k) (parents node)
                    (if \<not> Has futureSet h then Add anticone h else anticone)
                else Some anticone))"

definition GetAnticone :: "nat \<Rightarrow> BlockDAG \<Rightarrow> Block \<Rightarrow> BlockSet option \<Rightarrow> BlockSet option" where
  "GetAnticone n bd b exclude =
     do {
       futureSet \<leftarrow> GetFutureSet n bd NewBlockSet b;
       ts \<leftarrow> tips bd;
       anticone \<leftarrow> forEach (\<lambda>k a. recAnticone n bd b futureSet a k) ts NewBlockSet;
       Some (case exclude of None \<Rightarrow> anticone | Some ex \<Rightarrow> Exclude anticone ex)
     }"

subsection \<open>The past-set count\<close>

definition calculatePastBlockSetNum :: "nat \<Rightarrow> BlockDAG \<Rightarrow> Block \<Rightarrow> BlockDAG option" where
  "calculatePastBlockSetNum n bd b =
     (if bhash b = genesis bd then Some (updNode (bhash b) (\<lambda>x. x\<lparr>pastSetNum := 0\<rparr>) bd)
      else if parents b = [] then Some bd
      else do {
        parentsList \<leftarrow> those (map (GetBlock bd) (parents b));
        if length parentsList = 1 then
          Some (updNode (bhash b) (\<lambda>x. x\<lparr>pastSetNum := pastSetNum (hd parentsList) + 1\<rparr>) bd)
        else do {
          anticone \<leftarrow> GetAnticone n bd b None;
          anOther \<leftarrow> GetAnticone n bd (hd parentsList) (Some anticone);
          Some (updNode (bhash b)
                  (\<lambda>x. x\<lparr>pastSetNum := pastSetNum (hd parentsList) + length anOther + 1\<rparr>) bd)
        }
      })"


subsection \<open>The deterministic block sort\<close>

type_synonym SortBlock = "hash \<times> nat"

definition Less :: "SortBlock \<Rightarrow> SortBlock \<Rightarrow> bool" where
  "Less a b = (if snd a = snd b then fst a < fst b else snd a < snd b)"

fun insertSortBlock :: "SortBlock \<Rightarrow> SortBlock list \<Rightarrow> SortBlock list" where
  "insertSortBlock a [] = [a]"
| "insertSortBlock a (b # bs) = (if Less b a then b # insertSortBlock a bs else a # b # bs)"

definition sortBlocks :: "SortBlock list \<Rightarrow> SortBlock list" where
  "sortBlocks xs = foldr insertSortBlock xs []"

definition sortBlockSet :: "BlockDAG \<Rightarrow> BlockSet \<Rightarrow> BlockSet option \<Rightarrow> SortBlock list option" where
  "sortBlockSet bd s bs =
     do {
       kvs \<leftarrow> those (map (\<lambda>k. map_option (\<lambda>node. (k, pastSetNum node)) (GetBlock bd k)) s);
       Some (sortBlocks (filter (\<lambda>kv. hasOpt bs (fst kv)) kvs) @
             sortBlocks (filter (\<lambda>kv. \<not> hasOpt bs (fst kv)) kvs))
     }"

subsection \<open>The order walk\<close>

fun getPastSetByOrder :: "nat \<Rightarrow> BlockDAG \<Rightarrow> BlockSet \<Rightarrow> hash \<Rightarrow> BlockSet \<Rightarrow> BlockSet option" where
  "getPastSetByOrder 0 bd exclude h pastSet = None"
| "getPastSetByOrder (Suc n) bd exclude h pastSet =
     (if Has exclude h \<or> Has pastSet h then Some pastSet
      else if h = genesis bd then Some pastSet
      else case GetBlock bd h of
          None \<Rightarrow> None
        | Some node \<Rightarrow>
            forEach (\<lambda>v ps. getPastSetByOrder n bd exclude v (Add ps v)) (parents node) pastSet)"

type_synonym orderState = "hash list \<times> BlockSet"

fun GetTempOrder ::
  "nat \<Rightarrow> BlockDAG \<Rightarrow> BlockSet option \<Rightarrow> BlockSet option \<Rightarrow> hash \<Rightarrow> orderState \<Rightarrow> orderState option" where
  "GetTempOrder 0 bd bs exclude h st = None"
| "GetTempOrder (Suc n) bd bs exclude h st =
     (if hasOpt exclude h then Some st
      else case GetBlock bd h of
          None \<Rightarrow> None
        | Some node \<Rightarrow>
            if \<not> list_all (\<lambda>k. hasOpt exclude k \<or> Has (snd st) k) (parents node) then Some st
            else do {
              (anticone, st1) \<leftarrow>
                (if \<not> Has (snd st) h \<and> genesis bd \<noteq> h \<and> \<not> Has (lastCommonBlocks bd) h then
                   do {
                     anticone \<leftarrow> GetAnticone n bd node exclude;
                     if anticone \<noteq> [] then
                       do {
                         ansb \<leftarrow> sortBlockSet bd anticone bs;
                         bsv \<leftarrow> bs;
                         st' \<leftarrow>
                           (if Has bsv h then
                              forEach (\<lambda>av s.
                                  if Has bsv (fst av) \<and> snd av < pastSetNum node \<and> \<not> Has (snd s) (fst av)
                                  then GetTempOrder n bd bs exclude (fst av) s else Some s) ansb st
                            else
                              forEach (\<lambda>av s.
                                  if Has bsv (fst av) \<and> \<not> Has (snd s) (fst av)
                                  then GetTempOrder n bd bs exclude (fst av) s else Some s) ansb st);
                         Some (Some anticone, st')
                       }
                     else Some (Some anticone, st)
                   }
                 else Some (None, st));
              let st2 = (if \<not> Has (snd st1) h then (fst st1 @ [h], Add (snd st1) h) else st1);
                  chs = (case exclude of None \<Rightarrow> children node | Some ex \<Rightarrow> Exclude (children node) ex)
              in
              if chs = [] then Some st2
              else do {
                sb \<leftarrow> sortBlockSet bd chs bs;
                bsv \<leftarrow> bs;
                st3 \<leftarrow>
                  forEach (\<lambda>v s.
                      if Has bsv (fst v) then
                        do {
                          s1 \<leftarrow>
                            (if \<not> Has (snd s) (fst v) then
                               do {
                                 let excludeT = (case exclude of None \<Rightarrow> snd s | Some ex \<Rightarrow> AddSet (snd s) ex);
                                 pastSet \<leftarrow> getPastSetByOrder n bd excludeT (fst v) NewBlockSet;
                                 let inbs = Intersection pastSet anticone;
                                 if inbs \<noteq> [] then
                                   do {
                                     insb \<leftarrow> sortBlockSet bd inbs bs;
                                     (s', redSet) \<leftarrow>
                                       forEach (\<lambda>v0 sr.
                                           if Has bsv (fst v0) then
                                             (if \<not> Has (snd (fst sr)) (fst v0)
                                              then map_option (\<lambda>x. (x, snd sr))
                                                     (GetTempOrder n bd bs exclude (fst v0) (fst sr))
                                              else Some sr)
                                           else Some (fst sr, Add (snd sr) (fst v0))) insb (s, NewBlockSet);
                                     if redSet \<noteq> [] then
                                       (if list_all (\<lambda>k. Has (snd s') k) (Exclude pastSet redSet) then
                                          do {
                                            redsb \<leftarrow> sortBlockSet bd redSet bs;
                                            forEach (\<lambda>v1 s''. GetTempOrder n bd bs exclude (fst v1) s'') redsb s'
                                          }
                                        else Some s')
                                     else Some s'
                                   }
                                 else Some s
                               }
                             else Some s);
                          GetTempOrder n bd bs exclude (fst v) s1
                        }
                      else Some s) sb st2;
                forEach (\<lambda>v s. if \<not> Has bsv (fst v) then GetTempOrder n bd bs exclude (fst v) s else Some s)
                  sb st3
              }
            })"


subsection \<open>The common order\<close>

fun placeOrder :: "BlockSet \<Rightarrow> int \<Rightarrow> nat \<Rightarrow> hash list \<Rightarrow> hash option list \<Rightarrow> hash option list option" where
  "placeOrder lc startIndex i [] co = Some co"
| "placeOrder lc startIndex i (x # xs) co =
     (if Has lc x then placeOrder lc startIndex (Suc i) xs co
      else let idx = startIndex + int i
           in if idx < int (length co) then
                (if idx < 0 then None
                 else placeOrder lc startIndex (Suc i) xs (co[nat idx := Some x]))
              else placeOrder lc startIndex (Suc i) xs (co @ [Some x]))"

fun nullTail :: "BlockSet \<Rightarrow> hash option list \<Rightarrow> hash option list option" where
  "nullTail cur [] = Some []"
| "nullTail cur (None # r) = None"
| "nullTail cur (Some x # r) =
     (if Has cur x then Some (Some x # r) else map_option (\<lambda>r'. None # r') (nullTail cur r))"

definition updateCommonOrder ::
  "nat \<Rightarrow> BlockDAG \<Rightarrow> hash \<Rightarrow> BlockSet option \<Rightarrow> bool \<Rightarrow> BlockSet option \<Rightarrow> BlockSet option \<Rightarrow> int
     \<Rightarrow> BlockDAG option" where
  "updateCommonOrder n bd tip blueSet isRollBack exclude curLastCommonBS startIndex =
     (if tip = genesis bd then Some (bd\<lparr>commonOrder := []\<rparr>)
      else do {
        node \<leftarrow> GetBlock bd tip;
        let bd1 = (if HasOnly (parents node) (genesis bd) \<and> length (commonOrder bd) = 0
                   then bd\<lparr>commonOrder := commonOrder bd @ [Some (genesis bd)]\<rparr> else bd)
        in
        if \<not> isRollBack then
          (if blueSet = None then Some bd1
           else do {
             lpsb \<leftarrow> sortBlockSet bd1 (lastCommonBlocks bd1) blueSet;
             st \<leftarrow> forEach (\<lambda>v s. GetTempOrder n bd1 blueSet exclude (fst v) s) lpsb ([], NewBlockSet);
             co \<leftarrow> placeOrder (lastCommonBlocks bd1) startIndex 0 (fst st) (commonOrder bd1);
             Some (bd1\<lparr>commonOrder := co\<rparr>)
           })
        else do {
          cur \<leftarrow> curLastCommonBS;
          co \<leftarrow> nullTail cur (rev (commonOrder bd1));
          Some (bd1\<lparr>commonOrder := rev co\<rparr>)
        }
      })"

subsection \<open>The last common blocks\<close>

type_synonym tipSets = "(hash \<times> BlockSet) list"

text \<open>The running maximum of \<open>recPastBlockSet\<close>: the block, its past-set count, the tip.\<close>

fun maxPastIn ::
  "BlockDAG \<Rightarrow> hash \<Rightarrow> hash list \<Rightarrow> (hash \<times> nat \<times> hash) option \<Rightarrow> (hash \<times> nat \<times> hash) option option" where
  "maxPastIn bd tk [] cur = Some cur"
| "maxPastIn bd tk (k # ks) cur =
     (case GetBlock bd k of
        None \<Rightarrow> None
      | Some node \<Rightarrow>
          (case cur of
             None \<Rightarrow> maxPastIn bd tk ks (Some (k, pastSetNum node, tk))
           | Some (mh, mn, mt) \<Rightarrow>
               if mn < pastSetNum node then maxPastIn bd tk ks (Some (k, pastSetNum node, tk))
               else maxPastIn bd tk ks cur))"

fun maxPastOver ::
  "BlockDAG \<Rightarrow> tipSets \<Rightarrow> (hash \<times> nat \<times> hash) option \<Rightarrow> (hash \<times> nat \<times> hash) option option" where
  "maxPastOver bd [] cur = Some cur"
| "maxPastOver bd ((tk, v) # rest) cur =
     (if HasOnly v (genesis bd) then maxPastOver bd rest cur
      else case maxPastIn bd tk v cur of
          None \<Rightarrow> None
        | Some cur' \<Rightarrow> maxPastOver bd rest cur')"

definition updTip :: "hash \<Rightarrow> (BlockSet \<Rightarrow> BlockSet) \<Rightarrow> tipSets \<Rightarrow> tipSets" where
  "updTip t f m = map (\<lambda>kv. if fst kv = t then (fst kv, f (snd kv)) else kv) m"

definition recPastBlockSet :: "BlockDAG \<Rightarrow> tipSets \<Rightarrow> tipSets \<Rightarrow> (tipSets \<times> tipSets) option" where
  "recPastBlockSet bd tipsAncestors tipsGenealogy =
     do {
       found \<leftarrow> maxPastOver bd tipsAncestors None;
       case found of
         None \<Rightarrow> Some (tipsAncestors, tipsGenealogy)
       | Some (maxPastHash, maxPastNum, tipsHash) \<Rightarrow>
           do {
             node \<leftarrow> GetBlock bd maxPastHash;
             if parents node = [] then Some (tipsAncestors, tipsGenealogy)
             else do {
               gen \<leftarrow> map_of tipsGenealogy tipsHash;
               let fresh = filter (\<lambda>k. \<not> Has gen k) (parents node)
               in Some (updTip tipsHash (\<lambda>a. AddSet (Remove a maxPastHash) fresh) tipsAncestors,
                        updTip tipsHash (\<lambda>g. AddSet g fresh) tipsGenealogy)
             }
           }
     }"

fun lastCommonLoop :: "nat \<Rightarrow> BlockDAG \<Rightarrow> hash \<Rightarrow> tipSets \<Rightarrow> tipSets \<Rightarrow> BlockSet option" where
  "lastCommonLoop 0 bd tip tipsAncestors tipsGenealogy = None"
| "lastCommonLoop (Suc n) bd tip tipsAncestors tipsGenealogy =
     do {
       mine \<leftarrow> map_of tipsAncestors tip;
       if list_all (\<lambda>kv. fst kv = tip \<or> IsEqual mine (snd kv)) tipsAncestors then Some mine
       else do {
         (a, g) \<leftarrow> recPastBlockSet bd tipsAncestors tipsGenealogy;
         lastCommonLoop n bd tip a g
       }
     }"

text \<open>The result is a pointer: \<open>Some None\<close> is the nil the function returns for fewer than two tips.\<close>

definition calLastCommonBlocks :: "nat \<Rightarrow> BlockDAG \<Rightarrow> hash \<Rightarrow> BlockSet option option" where
  "calLastCommonBlocks n bd tip =
     (case tips bd of
        None \<Rightarrow> Some None
      | Some tipsList \<Rightarrow>
          if length tipsList \<le> 1 then Some None
          else map_option Some
                 (lastCommonLoop n bd tip (map (\<lambda>v. (v, Add NewBlockSet v)) tipsList)
                    (map (\<lambda>v. (v, Add NewBlockSet v)) tipsList)))"

definition futureOfSet :: "nat \<Rightarrow> BlockDAG \<Rightarrow> BlockSet \<Rightarrow> BlockSet option" where
  "futureOfSet n bd s =
     forEach (\<lambda>k fs. do { b \<leftarrow> GetBlock bd k; GetFutureSet n bd fs b }) s NewBlockSet"

subsection \<open>The blue set\<close>

type_synonym pastBlue = "hash \<Rightarrow> BlockSet option"

definition calLastCommonBlocksPBS :: "nat \<Rightarrow> BlockDAG \<Rightarrow> pastBlue \<Rightarrow> pastBlue option" where
  "calLastCommonBlocksPBS n bd pastBlueSet =
     do {
       lastPFuture \<leftarrow> futureOfSet n bd (lastCommonBlocks bd);
       if length (lastCommonBlocks bd) = 1 then
         Some (pastBlueSet(hd (lastCommonBlocks bd) \<mapsto> NewBlockSet))
       else do {
         lpbAnti \<leftarrow> those (map (\<lambda>k. do {
                       b \<leftarrow> GetBlock bd k;
                       a \<leftarrow> GetAnticone n bd b (Some lastPFuture);
                       Some (k, a) }) (lastCommonBlocks bd));
         let lastTempBlueSet =
               filter (\<lambda>k. Has (commonBlueSet bd) k) (foldl (\<lambda>s ka. AddSet s (snd ka)) NewBlockSet lpbAnti)
         in Some (foldl (\<lambda>m ka. m(fst ka \<mapsto> Remove (Exclude lastTempBlueSet (snd ka)) (fst ka)))
                    pastBlueSet lpbAnti)
       }
     }"

text \<open>
  Modelled from the spec: \<open>GetMaxLenBlockSet\<close> is not in the files at hand. The selected
  parent is the one with the largest past blue set, ties broken by the lexicographic order
  of the ids; no parent at all gives nil.
\<close>

fun GetMaxLenBlockSet :: "(hash \<times> BlockSet) list \<Rightarrow> hash option" where
  "GetMaxLenBlockSet [] = None"
| "GetMaxLenBlockSet ((k, v) # rest) =
     (case GetMaxLenBlockSet rest of
        None \<Rightarrow> Some k
      | Some k' \<Rightarrow>
          (case map_of rest k' of
             None \<Rightarrow> Some k
           | Some v' \<Rightarrow>
               if length v' < length v \<or> (length v' = length v \<and> k < k') then Some k else Some k'))"

definition calculateBlueSet ::
  "nat \<Rightarrow> BlockDAG \<Rightarrow> BlockSet \<Rightarrow> BlockSet option \<Rightarrow> pastBlue \<Rightarrow> bool \<Rightarrow> BlockSet option option" where
  "calculateBlueSet n bd prts exclude pastBlueSet useCommon =
     (let parentsPBSS = map (\<lambda>k. (k, case pastBlueSet k of Some s \<Rightarrow> s | None \<Rightarrow> NewBlockSet)) prts
      in case GetMaxLenBlockSet parentsPBSS of
          None \<Rightarrow> Some None
        | Some maxBluePBSHash \<Rightarrow>
            do {
              maxSet \<leftarrow> map_of parentsPBSS maxBluePBSHash;
              let result = Add (AddSet NewBlockSet maxSet) maxBluePBSHash
              in
              if length prts = 1 then Some (Some result)
              else do {
                maxBlock \<leftarrow> GetBlock bd maxBluePBSHash;
                maxBlueAnBS \<leftarrow> GetAnticone n bd maxBlock exclude;
                r \<leftarrow> forEach (\<lambda>k res. do {
                        kb \<leftarrow> GetBlock bd k;
                        bAnBS \<leftarrow> GetAnticone n bd kb exclude;
                        if bAnBS = [] then Some res
                        else let inBS = Intersection res (Some bAnBS);
                                 inBS' = (if useCommon
                                          then AddSet inBS (Intersection (commonBlueSet bd) (Some bAnBS))
                                          else inBS)
                             in if int (length inBS') \<le> anticoneSize bd then Some (Add res k)
                                else Some res
                      }) maxBlueAnBS result;
                Some (Some r)
              }
            })"

fun calculatePastBlueSet :: "nat \<Rightarrow> BlockDAG \<Rightarrow> bool \<Rightarrow> hash \<Rightarrow> pastBlue \<Rightarrow> pastBlue option" where
  "calculatePastBlueSet 0 bd useCommon h pastBlueSet = None"
| "calculatePastBlueSet (Suc n) bd useCommon h pastBlueSet =
     (if pastBlueSet h \<noteq> None then Some pastBlueSet
      else if h = genesis bd then Some (pastBlueSet(h \<mapsto> NewBlockSet))
      else do {
        node \<leftarrow> GetBlock bd h;
        if parents node = [] then Some pastBlueSet
        else if HasOnly (parents node) (genesis bd) then
          Some (pastBlueSet(h \<mapsto> Add NewBlockSet (genesis bd)))
        else do {
          pbs \<leftarrow> forEach (\<lambda>k m. calculatePastBlueSet n bd useCommon k m) (parents node) pastBlueSet;
          anticone \<leftarrow> GetAnticone n bd node None;
          blue \<leftarrow> calculateBlueSet n bd (parents node) (Some anticone) pbs useCommon;
          r \<leftarrow> blue;
          Some (pbs(h \<mapsto> r))
        }
      })"


definition updateCommonBlueSet :: "nat \<Rightarrow> BlockDAG \<Rightarrow> hash \<Rightarrow> BlockDAG option" where
  "updateCommonBlueSet n bd tip =
     (if tip = genesis bd then
        updateCommonOrder n (bd\<lparr>commonBlueSet := NewBlockSet, lastCommonBlocks := NewBlockSet\<rparr>)
          tip None False None None 0
      else do {
        node \<leftarrow> GetBlock bd tip;
        if HasOnly (parents node) (genesis bd) then
          updateCommonOrder n
            (bd\<lparr>commonBlueSet := Add NewBlockSet (genesis bd),
                lastCommonBlocks := Add NewBlockSet (genesis bd)\<rparr>)
            tip None False None None 0
        else do {
          ts \<leftarrow> tips bd;
          if length ts \<le> 1 then Some bd
          else do {
            cur \<leftarrow> calLastCommonBlocks n bd tip;
            curLastCommonBS \<leftarrow> cur;
            if IsEqual curLastCommonBS (lastCommonBlocks bd) then Some bd
            else do {
              curLPFuture \<leftarrow> futureOfSet n bd curLastCommonBS;
              lastPFuture \<leftarrow> futureOfSet n bd (lastCommonBlocks bd);
              if Contain lastPFuture curLPFuture then
                do {
                  lcNodes \<leftarrow> those (map (GetBlock bd) (lastCommonBlocks bd));
                  let oExclude = foldl (\<lambda>s b. AddSet s (parents b)) (AddSet NewBlockSet curLPFuture) lcNodes;
                  pbs0 \<leftarrow> calLastCommonBlocksPBS n bd (\<lambda>k. None);
                  pbs \<leftarrow> forEach (\<lambda>k m. calculatePastBlueSet n bd False k m) curLastCommonBS pbs0;
                  blue \<leftarrow> calculateBlueSet n bd curLastCommonBS (Some curLPFuture) pbs False;
                  bd1 \<leftarrow> updateCommonOrder n bd tip blue False (Some oExclude) (Some curLastCommonBS)
                           (int (totalBlocks bd) - int (length lastPFuture));
                  blueSet \<leftarrow> blue;
                  Some (bd1\<lparr>commonBlueSet := AddSet (commonBlueSet bd1) blueSet,
                            lastCommonBlocks := curLastCommonBS\<rparr>)
                }
              else if Contain curLPFuture lastPFuture then
                do {
                  bd1 \<leftarrow> updateCommonOrder n bd tip None True None (Some curLastCommonBS)
                           (int (totalBlocks bd) - int (length curLPFuture));
                  Some (bd1\<lparr>commonBlueSet := Exclude (commonBlueSet bd1) curLPFuture,
                            lastCommonBlocks := curLastCommonBS\<rparr>)
                }
              else Some bd
            }
          }
        }
      })"

definition GetTempBlueSet :: "nat \<Rightarrow> BlockDAG \<Rightarrow> BlockSet option option" where
  "GetTempBlueSet n bd =
     do {
       ts \<leftarrow> tips bd;
       if HasOnly ts (genesis bd) then Some (Some (Add NewBlockSet (genesis bd)))
       else do {
         pbs0 \<leftarrow> calLastCommonBlocksPBS n bd (\<lambda>k. None);
         pbs \<leftarrow> forEach (\<lambda>k m. calculatePastBlueSet n bd False k m) ts pbs0;
         calculateBlueSet n bd ts None pbs False
       }
     }"

text \<open>\<open>getTempBS\<close> fills the cache \<open>tempBlueSet\<close> when it is nil and returns it.\<close>

definition getTempBS :: "nat \<Rightarrow> BlockDAG \<Rightarrow> (BlockSet option \<times> BlockDAG) option" where
  "getTempBS n bd =
     (case tempBlueSet bd of
        Some t \<Rightarrow> Some (Some t, bd)
      | None \<Rightarrow> do { r \<leftarrow> GetTempBlueSet n bd; Some (r, bd\<lparr>tempBlueSet := r\<rparr>) })"

subsection \<open>Hourglass blocks\<close>

text \<open>
  In \<open>recCalHourglass\<close> the pointer \<open>maxPastHash\<close> is the address of the variable of the
  \<open>range\<close> loop, which is one variable for the whole loop: once the loop is over it holds
  the key visited last, whatever its past-set count.
\<close>

definition recCalHourglass :: "BlockDAG \<Rightarrow> BlockSet \<Rightarrow> BlockSet \<Rightarrow> (BlockSet \<times> BlockSet) option" where
  "recCalHourglass bd genealogy ancestors =
     do {
       _ \<leftarrow> those (map (GetBlock bd) ancestors);
       if ancestors = [] then Some (genealogy, ancestors)
       else do {
         let maxPastHash = last ancestors;
         node \<leftarrow> GetBlock bd maxPastHash;
         if parents node = [] then Some (genealogy, ancestors)
         else let fresh = filter (\<lambda>k. \<not> Has genealogy k) (parents node)
              in Some (AddSet genealogy fresh, AddSet (Remove ancestors maxPastHash) fresh)
       }
     }"

text \<open>The inner loop of \<open>updateHourglass\<close>: the first block of \<open>sb\<close> that qualifies, if any.\<close>

fun firstHourglass :: "nat \<Rightarrow> BlockDAG \<Rightarrow> BlockSet \<Rightarrow> SortBlock list \<Rightarrow> hash option option" where
  "firstHourglass n bd tempBs [] = Some None"
| "firstHourglass n bd tempBs (v # rest) =
     do {
       node \<leftarrow> GetBlock bd (fst v);
       anti \<leftarrow> GetAnticone n bd node None;
       if length anti = 0 then Some (Some (fst v))
       else if length (AddSet (Intersection tempBs (Some anti))
                         (Intersection (commonBlueSet bd) (Some anti))) = 0
       then Some (Some (fst v))
       else firstHourglass n bd tempBs rest
     }"

fun hourglassLoop ::
  "nat \<Rightarrow> nat \<Rightarrow> BlockDAG \<Rightarrow> BlockSet \<Rightarrow> BlockSet \<Rightarrow> BlockSet \<Rightarrow> BlockSet \<Rightarrow> BlockSet option" where
  "hourglassLoop 0 n bd tempBs hg genealogy ancestors = None"
| "hourglassLoop (Suc m) n bd tempBs hg genealogy ancestors =
     do {
       (genealogy1, ancestors0) \<leftarrow> recCalHourglass bd genealogy ancestors;
       let ancestors1 = AddSet (Intersection tempBs (Some ancestors0))
                          (Intersection (commonBlueSet bd) (Some ancestors0))
       in
       if ancestors1 = [] \<or> HasOnly ancestors1 (genesis bd) then Some (Add NewBlockSet (genesis bd))
       else do {
         sb \<leftarrow> sortBlockSet bd ancestors1 None;
         found \<leftarrow> firstHourglass n bd tempBs sb;
         case found of
           Some h \<Rightarrow> Some (Add (Exclude hg genealogy1) h)
         | None \<Rightarrow> hourglassLoop m n bd tempBs hg genealogy1 ancestors1
       }
     }"

definition updateHourglass :: "nat \<Rightarrow> BlockDAG \<Rightarrow> BlockDAG option" where
  "updateHourglass n bd =
     (case tips bd of
        None \<Rightarrow> Some bd
      | Some ts \<Rightarrow>
          if length ts = 0 then Some bd
          else let hg = (case hourglassBlocks bd of None \<Rightarrow> NewBlockSet | Some x \<Rightarrow> x);
                   bd0 = bd\<lparr>hourglassBlocks := Some hg\<rparr>
               in
               if HasOnly ts (genesis bd) then Some (bd\<lparr>hourglassBlocks := Some (Add hg (genesis bd))\<rparr>)
               else do {
                 tipNodes \<leftarrow> those (map (GetBlock bd) ts);
                 if length (filter (\<lambda>b. HasOnly (parents b) (genesis bd)) tipNodes) = length ts
                 then Some bd0
                 else do {
                   (blue, bd1) \<leftarrow> getTempBS n bd0;
                   tempBs \<leftarrow> blue;
                   hg' \<leftarrow> hourglassLoop n n bd1 tempBs hg ts ts;
                   Some (bd1\<lparr>hourglassBlocks := Some hg'\<rparr>)
                 }
               })"

subsection \<open>The total order\<close>

definition GetCommonOrderNum :: "BlockDAG \<Rightarrow> nat" where
  "GetCommonOrderNum bd = length (dropWhile (\<lambda>x. x = None) (rev (commonOrder bd)))"

text \<open>The loop of \<open>updateOrder\<close> that copies the walk into \<open>tempOrder\<close> and sets the heights.\<close>

fun setHeights :: "nat \<Rightarrow> hash list \<Rightarrow> BlockDAG \<Rightarrow> BlockDAG option" where
  "setHeights pNum [] bd = Some bd"
| "setHeights pNum (x # xs) bd =
     (if \<not> Has (lastCommonBlocks bd) x then
        (case GetBlock bd x of
           None \<Rightarrow> None
         | Some node \<Rightarrow>
             setHeights pNum xs
               (updNode x (\<lambda>b. b\<lparr>height := pNum + length (tempOrder bd)\<rparr>)
                  (bd\<lparr>tempOrder := tempOrder bd @ [x]\<rparr>)))
      else setHeights pNum xs bd)"

definition updateOrder :: "nat \<Rightarrow> BlockDAG \<Rightarrow> Block \<Rightarrow> BlockDAG option" where
  "updateOrder n bd b =
     (if totalBlocks bd = 1 then
        Some (updNode (bhash b) (\<lambda>x. x\<lparr>height := 0\<rparr>) (bd\<lparr>tempOrder := [genesis bd]\<rparr>))
      else do {
        (blueSet, bd1) \<leftarrow> getTempBS n (bd\<lparr>tempOrder := []\<rparr>);
        lpsb \<leftarrow> sortBlockSet bd1 (lastCommonBlocks bd1) None;
        lcNodes \<leftarrow> those (map (GetBlock bd1) (lastCommonBlocks bd1));
        let exclude = foldl (\<lambda>s x. AddSet s (parents x)) NewBlockSet lcNodes;
        st \<leftarrow> forEach (\<lambda>v s. GetTempOrder n bd1 blueSet (Some exclude) (fst v) s) lpsb ([], NewBlockSet);
        bd2 \<leftarrow> setHeights (GetCommonOrderNum bd1) (fst st) bd1;
        ts \<leftarrow> tips bd2;
        if HasOnly ts (bhash b) then
          Some (updNode (bhash b) (\<lambda>x. x\<lparr>height := totalBlocks bd2 - 1\<rparr>) bd2)
        else if tempOrder bd2 = [] then None
        else if last (tempOrder bd2) = bhash b then
          Some (updNode (bhash b) (\<lambda>x. x\<lparr>height := totalBlocks bd2 - 1\<rparr>) bd2)
        else Some bd2
      })"

subsection \<open>AddBlock\<close>

text \<open>
  The engine after \<open>Init\<close>: no block, every set pointer nil, the clock at \<open>now\<close> and the
  anticone bound \<open>k\<close>.
\<close>

definition newBlockDAG :: "int \<Rightarrow> int \<Rightarrow> BlockDAG" where
  "newBlockDAG now k =
     \<lparr>nodes = [], genesis = 0, totalBlocks = 0, commonBlueSet = [], tempBlueSet = None,
      lastCommonBlocks = [], commonOrder = [], tempOrder = [], tips = None,
      hourglassBlocks = None, lastTime = now, anticoneSize = k\<rparr>"

definition AddBlock :: "nat \<Rightarrow> BlockDAG \<Rightarrow> Block \<Rightarrow> dag_error + BlockDAG" where
  "AddBlock n bd b =
     (case AddNode bd b of
        Inl err \<Rightarrow> Inl err
      | Inr bd0 \<Rightarrow>
          (let bd1 = bd0\<lparr>totalBlocks := totalBlocks bd0 + 1, tempBlueSet := None,
                          lastTime := (if lastTime bd0 < timestamp b then timestamp b else lastTime bd0)\<rparr>;
               bd2 = updateTips bd1 b
           in case do {
                 node \<leftarrow> GetBlock bd2 (bhash b);
                 bd3 \<leftarrow> calculatePastBlockSetNum n bd2 node;
                 bd4 \<leftarrow> updateCommonBlueSet n bd3 (bhash b);
                 bd5 \<leftarrow> updateHourglass n bd4;
                 updateOrder n bd5 b
               } of
               None \<Rightarrow> Inl Aborted
             | Some bd' \<Rightarrow> Inr bd'))"

text \<open>\<open>AddBlock\<close> for each block of a list in turn, stopping at the first rejection.\<close>

fun addAll :: "nat \<Rightarrow> BlockDAG \<Rightarrow> Block list \<Rightarrow> dag_error + BlockDAG" where
  "addAll n bd [] = Inr bd"
| "addAll n bd (b # bs) =
     (case AddBlock n bd b of Inl e \<Rightarrow> Inl e | Inr bd' \<Rightarrow> addAll n bd' bs)"

subsection \<open>Sample blocks\<close>

text \<open>A block with the given id and parents, not yet indexed.\<close>

definition mkBlock :: "hash \<Rightarrow> hash list \<Rightarrow> Block" where
  "mkBlock h ps =
     \<lparr>bhash = h, parents = foldl Add NewBlockSet ps, children = NewBlockSet, timestamp = 0,
      pastSetNum = 0, height = 0\<rparr>"

text \<open>The linear chain of scenario S1: genesis, its child and its grandchild.\<close>

definition G :: Block where
  "G = mkBlock 1 []"

definition B1 :: Block where
  "B1 = mkBlock 2 [1]"

definition B2 :: Block where
  "B2 = mkBlock 3 [2]"

text \<open>
  Five blocks: genesis 1, its children 2 and 5, and the children 3 and 4 of block 2. Both
  lists feed them parents first; the first one inserts block 5 last.
\<close>

definition forkLate :: "Block list" where
  "forkLate = [mkBlock 1 [], mkBlock 2 [1], mkBlock 3 [2], mkBlock 4 [2], mkBlock 5 [1]]"

definition forkEarly :: "Block list" where
  "forkEarly = [mkBlock 1 [], mkBlock 2 [1], mkBlock 5 [1], mkBlock 3 [2], mkBlock 4 [2]]"

text \<open>
  Nine blocks: genesis 1 and its children 2, 3 and 4; block 5 on 3 and block 6 on 5;
  block 7 on 2, 3 and 4; the tips 8 on 5 and 7, and 9 on 6 and 7. No block names two
  parents of which one is an ancestor of the other.
\<close>

definition crossed :: "Block list" where
  "crossed =
     [mkBlock 1 [], mkBlock 2 [1], mkBlock 3 [1], mkBlock 4 [1], mkBlock 5 [3], mkBlock 6 [5],
      mkBlock 7 [2, 3, 4], mkBlock 8 [5, 7], mkBlock 9 [6, 7]]"

text \<open>Four blocks: genesis 1, its children 2 and 3, and block 4 on both.\<close>

definition diamond :: "Block list" where
  "diamond = [mkBlock 1 [], mkBlock 2 [1], mkBlock 3 [1], mkBlock 4 [2, 3]]"

text \<open>The total order: the entries of the common order that are not nil, then the temp order.\<close>

definition totalOrder :: "BlockDAG \<Rightarrow> hash list" where
  "totalOrder bd = map the (filter (\<lambda>x. x \<noteq> None) (commonOrder bd)) @ tempOrder bd"

subsection \<open>The past of a block and the invariants of the index\<close>

text \<open>
  The ids of the index, and the parents and the children of an id as the index records
  them. The parent relation holds the pairs of a parent and a child. The past of a block,
  as a full traversal of the parent closure gives it, is the set of the blocks from which
  the parent relation leads to the block in one step or more; the future is the converse;
  the anticone holds the indexed blocks that are not the block and neither in its past
  nor in its future.
\<close>

definition domS :: "BlockDAG \<Rightarrow> hash set" where
  "domS bd = fst ` set (nodes bd)"

definition parS :: "BlockDAG \<Rightarrow> hash \<Rightarrow> hash set" where
  "parS bd h = (case GetBlock bd h of None \<Rightarrow> {} | Some node \<Rightarrow> set (parents node))"

definition chiS :: "BlockDAG \<Rightarrow> hash \<Rightarrow> hash set" where
  "chiS bd h = (case GetBlock bd h of None \<Rightarrow> {} | Some node \<Rightarrow> set (children node))"

definition parentRel :: "BlockDAG \<Rightarrow> (hash \<times> hash) set" where
  "parentRel bd = set (concat (map (\<lambda>kn. map (\<lambda>p. (p, fst kn)) (parents (snd kn))) (nodes bd)))"

definition pastOf :: "BlockDAG \<Rightarrow> hash \<Rightarrow> hash set" where
  "pastOf bd h = fst ` Set.filter (\<lambda>e. snd e = h) ((parentRel bd)\<^sup>+)"

definition futureOf :: "BlockDAG \<Rightarrow> hash \<Rightarrow> hash set" where
  "futureOf bd h = snd ` Set.filter (\<lambda>e. fst e = h) ((parentRel bd)\<^sup>+)"

definition anticoneOf :: "BlockDAG \<Rightarrow> hash \<Rightarrow> hash set" where
  "anticoneOf bd h = domS bd - {h} - futureOf bd h - pastOf bd h"

text \<open>
  The invariant of the index: the ids are distinct, every record is stored under its own
  id, parents and children are indexed, the children sets mirror the parent sets, the
  parent relation goes up along a rank below the number of blocks, and the tips are the
  indexed blocks without children. Once there are tips, the genesis id is indexed.
\<close>

definition wfDag :: "BlockDAG \<Rightarrow> bool" where
  "wfDag bd =
     (distinct (map fst (nodes bd)) \<and>
      (\<forall>kn \<in> set (nodes bd). bhash (snd kn) = fst kn \<and>
          set (parents (snd kn)) \<subseteq> domS bd \<and> set (children (snd kn)) \<subseteq> domS bd) \<and>
      (\<forall>p c. p \<in> domS bd \<longrightarrow> c \<in> domS bd \<longrightarrow> (c \<in> chiS bd p) = (p \<in> parS bd c)) \<and>
      (\<exists>r. (\<forall>e \<in> parentRel bd. r (fst e) < r (snd e)) \<and> (\<forall>h \<in> domS bd. r h < length (nodes bd))) \<and>
      (case tips bd of None \<Rightarrow> nodes bd = []
       | Some ts \<Rightarrow> set ts = {h \<in> domS bd. chiS bd h = {}}))"

definition gInv :: "BlockDAG \<Rightarrow> bool" where
  "gInv bd = (wfDag bd \<and> (case tips bd of None \<Rightarrow> True | Some ts \<Rightarrow> genesis bd \<in> domS bd))"

text \<open>
  Every stored count is the size of the past of its block. No parent of a block is in the
  past of another parent of that block.
\<close>

definition countsOK :: "BlockDAG \<Rightarrow> bool" where
  "countsOK bd = (\<forall>kn\<in>set (nodes bd). pastSetNum (snd kn) = card (pastOf bd (fst kn)))"

definition antichainParents :: "BlockDAG \<Rightarrow> bool" where
  "antichainParents bd =
     (\<forall>kn\<in>set (nodes bd). \<forall>p\<in>set (parents (snd kn)). \<forall>q\<in>set (parents (snd kn)). p \<notin> pastOf bd q)"

text \<open>
  The state that \<open>calculatePastBlockSetNum\<close> works on in \<open>AddBlock\<close>: the block is indexed
  and linked to its parents, and the tips are updated.
\<close>

definition grown :: "BlockDAG \<Rightarrow> Block \<Rightarrow> BlockDAG" where
  "grown bd b =
     updateTips
       (bd\<lparr>nodes :=
             map (\<lambda>(k, n). if k \<in> set (parents b) then (k, n\<lparr>children := Add (children n) (bhash b)\<rparr>)
                           else (k, n)) (nodes bd) @ [(bhash b, b)],
           totalBlocks := totalBlocks bd + 1, tempBlueSet := None,
           lastTime := (if lastTime bd < timestamp b then timestamp b else lastTime bd)\<rparr>) b"

text \<open>
  What the later steps of \<open>AddBlock\<close> keep of the index: the records up to their order
  height, hence the ids with their links and the stored counts.
\<close>

definition shape :: "BlockDAG \<Rightarrow> (hash \<times> Block) list" where
  "shape bd = map (\<lambda>kn. (fst kn, (snd kn)\<lparr>height := 0\<rparr>)) (nodes bd)"

definition sameGraph :: "BlockDAG \<Rightarrow> BlockDAG \<Rightarrow> bool" where
  "sameGraph bd bd' = (shape bd' = shape bd \<and> tips bd' = tips bd \<and> genesis bd' = genesis bd)"

definition links :: "BlockDAG \<Rightarrow> (hash \<times> hash \<times> BlockSet \<times> BlockSet) list" where
  "links bd = map (\<lambda>kn. (fst kn, bhash (snd kn), parents (snd kn), children (snd kn))) (nodes bd)"

definition counts :: "BlockDAG \<Rightarrow> (hash \<times> nat) list" where
  "counts bd = map (\<lambda>kn. (fst kn, pastSetNum (snd kn))) (nodes bd)"

text \<open>
  The invariant of the walk \<open>recAnticone\<close>, for the block \<open>hb\<close>: \<open>A\<close> is the anticone
  collected so far, \<open>K\<close> the blocks the walk has been called on, \<open>T\<close> the blocks whose
  parents it has gone through, \<open>S\<close> the blocks whose parents it is going through and \<open>E\<close>
  the parents still waiting for their call. \<open>aPost\<close> is what one call on \<open>h\<close> ensures.
\<close>

definition aInv :: "BlockDAG \<Rightarrow> hash \<Rightarrow> hash set \<Rightarrow> hash set \<Rightarrow> hash set \<Rightarrow> hash set \<Rightarrow> hash set \<Rightarrow> bool" where
  "aInv bd hb A K T E S =
     (A \<subseteq> anticoneOf bd hb \<and>
      (\<forall>k\<in>K. k \<in> anticoneOf bd hb \<longrightarrow>
          k \<in> A \<or> k \<in> E \<or> (\<exists>c\<in>chiS bd k. c \<in> anticoneOf bd hb \<and> c \<notin> A)) \<and>
      (\<forall>x\<in>T. parS bd x \<subseteq> K) \<and>
      A \<subseteq> T \<union> S \<and>
      (\<forall>k\<in>K. k \<in> futureOf bd hb \<longrightarrow> k \<in> T \<union> S))"

definition aPost :: "BlockDAG \<Rightarrow> hash \<Rightarrow> hash list \<Rightarrow> hash set \<Rightarrow> hash set \<Rightarrow> hash set \<Rightarrow> hash set \<Rightarrow> hash \<Rightarrow> hash list \<Rightarrow> bool" where
  "aPost bd hb A0 K0 T0 E S h A1 =
     (\<exists>K1 T1. aInv bd hb (set A1) K1 T1 E S \<and> set A0 \<subseteq> set A1 \<and> K0 \<subseteq> K1 \<and> h \<in> K1 \<and> T0 \<subseteq> T1 \<and>
        (h \<in> anticoneOf bd hb \<longrightarrow>
           h \<in> set A1 \<or> (\<exists>c\<in>chiS bd h. c \<in> anticoneOf bd hb \<and> c \<notin> set A1)) \<and>
        (h \<in> futureOf bd hb \<longrightarrow> h \<in> T1) \<and> (distinct A0 \<longrightarrow> distinct A1))"

section \<open>Verified properties of the UTXO viewpoint\<close>

subsection \<open>Journal lookup\<close>

lemma scanSpentTxOut_no_match:
  "\<forall>s \<in> set stxos. \<not> (stxo_txIndex s = ti \<and> stxo_inIndex s = ii) \<Longrightarrow>
   scanSpentTxOut ti ii stxos r = r"
  by (induction stxos) auto

text \<open>
  Claim C9. A lookup that matches no record of the journal should report absence. On the
  non-empty journal \<open>journal1\<close>, which has no record for input 0 of transaction 2,
  \<open>GetSpentTxOut\<close> does not return nil: it returns a pointer to the zero record.
\<close>

theorem GetSpentTxOut_no_match_returns_zero_record:
  "GetSpentTxOut 2 0 journal1 = Some zeroSpentTxOut \<and>
   list_all (\<lambda>s. \<not> (stxo_txIndex s = 2 \<and> stxo_inIndex s = 0)) journal1"
  by (simp add: GetSpentTxOut_def journal1_def zeroSpentTxOut_def)

subsection \<open>The best hash after a disconnect\<close>

lemma disconnectTransactions_bestHash:
  "disconnectTransactions view block stxos = Inr view' \<Longrightarrow> bestHash view' = blockHash block"
  by (auto simp: disconnectTransactions_def split: sum.splits)

text \<open>
  Claim C3. After a successful disconnect the view's best hash should be the parent of the
  disconnected block. Block 12 (parent 11) is connected on top of \<open>view0\<close> and then
  disconnected with the recorded journal: the disconnect succeeds and leaves the best hash
  at 12, the disconnected block itself, which is not one of its parents.
\<close>

theorem disconnectTransactions_sets_best_to_block_itself:
  "\<exists>v j v'. connectEach lib0 2 0 (Transactions block2) view0 (Some []) = Inr (v, Some j) \<and>
     disconnectTransactions v block2 j = Inr v' \<and>
     bestHash v' = 12 \<and> blockHash block2 = 12 \<and> blockParents block2 = [11]"
  by (simp add: block2_def CB2_def T2_def view0_def T1_def nullIn_def lib0_def
      connectTransaction_def AddTxOuts_def LookupEntry_def NewUtxoViewpoint_def newUtxoEntry_def
      SpendOutput_def AmountByIndex_def ScriptVersionByIndex_def PkScriptByIndex_def
      IsFullySpent_def disconnectTransactions_def GetSpentTxOut_def TxTypeRegular_def Let_def)

subsection \<open>Replacing an entry\<close>

lemma view0_T1_live:
  "\<exists>e. LookupEntry view0 (txHash dupTx) = Some e \<and> \<not> IsFullySpent e"
  by (auto simp: view0_def dupTx_def T1_def lib0_def AddTxOuts_def LookupEntry_def
      NewUtxoViewpoint_def newUtxoEntry_def IsFullySpent_def Let_def fmpred_iff)

text \<open>
  Claim C8, as stated: \<open>add_tx_outs\<close> is rejected with \<open>DuplicateLiveTx\<close> when the entry it
  would replace still has an unspent output. \<open>AddTxOuts\<close> has no failure path: on \<open>view0\<close>,
  where the entry of hash 101 is live, the specified operation fails and the code returns
  a view.
\<close>

theorem AddTxOuts_live_entry_not_rejected:
  "add_tx_outs_spec lib0 view0 dupTx 9 0 = Inl DuplicateLiveTx \<and>
   add_tx_outs_spec lib0 view0 dupTx 9 0 \<noteq> Inr (AddTxOuts lib0 view0 dupTx 9 0)"
  using view0_T1_live by (auto simp: add_tx_outs_spec_def)

lemma addOutputs_other:
  "\<forall>k < length outs. (of_nat (n + k) :: 32 word) \<noteq> i \<Longrightarrow>
   fmlookup (addOutputs lib n outs m) i = fmlookup m i"
proof (induction outs arbitrary: n m)
  case Nil
  then show ?case by simp
next
  case (Cons a outs)
  have h0: "(of_nat n :: 32 word) \<noteq> i"
    using Cons.prems[rule_format, of 0] by simp
  have hs: "\<forall>k < length outs. (of_nat (Suc n + k) :: 32 word) \<noteq> i"
    using Cons.prems by (metis add_Suc_shift length_Cons not_less_eq)
  show ?case
    using Cons.IH[OF hs] h0 by (auto split: option.splits)
qed

lemma of_nat_32_inj:
  "a < 2 ^ 32 \<Longrightarrow> b < 2 ^ 32 \<Longrightarrow> (of_nat a :: 32 word) = of_nat b \<Longrightarrow> a = b"
  by (simp add: word_of_nat_eq_iff take_bit_nat_eq_self)

lemma addOutputs_sets:
  "k < length outs \<Longrightarrow> n + length outs \<le> 2 ^ 32 \<Longrightarrow>
   \<not> IsUnspendable lib (Amount (outs ! k)) (PkScript (outs ! k)) \<Longrightarrow>
   \<exists>out. fmlookup (addOutputs lib n outs m) (of_nat (n + k)) = Some out \<and> \<not> spent out \<and>
     amount out = Amount (outs ! k) \<and> pkScript out = PkScript (outs ! k)"
proof (induction outs arbitrary: n m k)
  case Nil
  then show ?case by simp
next
  case (Cons a outs)
  show ?case
  proof (cases k)
    case 0
    have far: "\<forall>j < length outs. (of_nat (Suc n + j) :: 32 word) \<noteq> of_nat n"
    proof (intro allI impI)
      fix j
      assume "j < length outs"
      then have "Suc n + j < 2 ^ 32" "n < 2 ^ 32"
        using Cons.prems(2) by auto
      then show "(of_nat (Suc n + j) :: 32 word) \<noteq> of_nat n"
        using of_nat_32_inj[of "Suc n + j" n] by auto
    qed
    have keep: "\<And>m'. fmlookup (addOutputs lib (Suc n) outs m') (of_nat n) = fmlookup m' (of_nat n)"
      using addOutputs_other[OF far] .
    show ?thesis
      using Cons.prems(3) 0 by (auto simp: keep split: option.splits)
  next
    case (Suc k')
    have a1: "k' < length outs"
      using Cons.prems(1) Suc by simp
    have a2: "Suc n + length outs \<le> 2 ^ 32"
      using Cons.prems(2) by simp
    have a3: "\<not> IsUnspendable lib (Amount (outs ! k')) (PkScript (outs ! k'))"
      using Cons.prems(3) Suc by simp
    have eq: "Suc n + k' = n + k"
      using Suc by simp
    show ?thesis
      using Cons.IH[OF a1 a2 a3] Suc by (auto simp: eq split: option.splits)
  qed
qed

text \<open>
  Claim C8, amended: \<open>AddTxOuts\<close> never fails. Whether or not the view already holds an
  entry for the transaction hash, and whether or not that entry is fully spent, the view
  afterwards holds an entry for the hash that is marked modified, carries the given block
  order and index, and in which every output of the transaction that is not provably
  unspendable is present and unspent with the transaction's amount and script.
\<close>

theorem AddTxOuts_always_replaces:
  assumes "length (TxOut tx) \<le> 2 ^ 32"
  shows "\<exists>e. fmlookup (entries (AddTxOuts lib view tx blkOrder blkIndex)) (txHash tx) = Some (Some e) \<and>
     modified e \<and> order e = ucast blkOrder \<and> index e = blkIndex \<and>
     (\<forall>n < length (TxOut tx).
        \<not> IsUnspendable lib (Amount (TxOut tx ! n)) (PkScript (TxOut tx ! n)) \<longrightarrow>
        (\<exists>out. fmlookup (sparseOutputs e) (of_nat n) = Some out \<and> \<not> spent out \<and>
           amount out = Amount (TxOut tx ! n) \<and> pkScript out = PkScript (TxOut tx ! n)))"
proof -
  have outs: "\<And>m n. n < length (TxOut tx) \<Longrightarrow>
      \<not> IsUnspendable lib (Amount (TxOut tx ! n)) (PkScript (TxOut tx ! n)) \<Longrightarrow>
      \<exists>out. fmlookup (addOutputs lib 0 (TxOut tx) m) (of_nat n) = Some out \<and> \<not> spent out \<and>
        amount out = Amount (TxOut tx ! n) \<and> pkScript out = PkScript (TxOut tx ! n)"
    using addOutputs_sets[where n=0 and outs="TxOut tx"] assms by simp
  show ?thesis
    by (cases "LookupEntry view (txHash tx)")
      (simp_all add: AddTxOuts_def Let_def newUtxoEntry_def outs)
qed

theorem AddTxOuts_always_replaces_witness:
  "\<exists>e. fmlookup (entries (AddTxOuts lib0 view0 dupTx 9 0)) 101 = Some (Some e) \<and>
     modified e \<and> order e = 9 \<and>
     (\<exists>out. fmlookup (sparseOutputs e) 0 = Some out \<and> \<not> spent out \<and> amount out = 30)"
  using AddTxOuts_always_replaces[of dupTx lib0 view0 9 0]
  by (fastforce simp: dupTx_def lib0_def)

subsection \<open>Entries missing from the store\<close>

lemma fetchLoop_keeps:
  "fetchLoop db xs view = Inr view' \<Longrightarrow> fmlookup (entries view) h \<noteq> None \<Longrightarrow>
   fmlookup (entries view') h = fmlookup (entries view) h"
proof (induction xs arbitrary: view)
  case Nil
  then show ?case by simp
next
  case (Cons x xs)
  then show ?case
    by (auto split: if_splits sum.splits)
qed

lemma fetchLoop_missing:
  "fetchLoop db xs view = Inr view' \<Longrightarrow> h \<in> set xs \<Longrightarrow> fmlookup (entries view) h = None \<Longrightarrow>
   utxoBucketGet db h = None \<Longrightarrow> fmlookup (entries view') h = Some None"
proof (induction xs arbitrary: view)
  case Nil
  then show ?case by simp
next
  case (Cons x xs)
  show ?case
  proof (cases "x = h")
    case True
    with Cons.prems
    have "fetchLoop db xs (view\<lparr>entries := fmupd h None (entries view)\<rparr>) = Inr view'"
      by (simp add: dbFetchUtxoEntry_def)
    from fetchLoop_keeps[OF this, of h] show ?thesis
      by simp
  next
    case False
    with Cons show ?thesis
      by (auto split: if_splits sum.splits)
  qed
qed

lemma commit_no_nil: "fmlookup (entries (commit view)) k \<noteq> Some None"
  by (auto simp: commit_def commitKeeps_def split: option.splits)

lemma commit_drops_nil:
  "fmlookup (entries view) k = Some None \<Longrightarrow> fmlookup (entries (commit view)) k = None"
  by (simp add: commit_def commitKeeps_def)

text \<open>
  Claim C10, as stated: after a successful \<open>fetchUtxosMain\<close> every requested hash that the
  store lacks is bound to nil in the view. A hash the view already holds is skipped by the
  loop: with an empty store and \<open>view0\<close>, which holds the entry of hash 101, the fetch of
  \<open>{101}\<close> succeeds and 101 is still bound to its entry, which \<open>LookupEntry\<close> returns.
\<close>

theorem fetchUtxosMain_keeps_held_entry:
  "fetchUtxosMain emptyDb view0 [101] = Inr view0 \<and> utxoBucketGet emptyDb 101 = None \<and>
   fmlookup (entries view0) 101 \<noteq> Some None \<and> LookupEntry view0 101 \<noteq> None"
  by (simp add: fetchUtxosMain_def view0_def AddTxOuts_def T1_def LookupEntry_def
      NewUtxoViewpoint_def emptyDb_def Let_def)

text \<open>
  Claim C10, amended: after a successful \<open>fetchUtxosMain\<close>, every requested hash that the
  store lacks and that the view did not hold before the call is bound to nil in the view,
  \<open>LookupEntry\<close> returns nil for it, and \<open>commit\<close> deletes it; a hash that the view held
  before the call, to an entry or to nil, is bound as it was; a committed view binds no
  key to nil.
\<close>

theorem fetchUtxosMain_missing_is_nil:
  assumes "fetchUtxosMain db view txSet = Inr view'"
  shows "(\<forall>h\<in>set txSet. utxoBucketGet db h = None \<and> fmlookup (entries view) h = None \<longrightarrow>
            fmlookup (entries view') h = Some None \<and> LookupEntry view' h = None \<and>
            fmlookup (entries (commit view')) h = None) \<and>
         (\<forall>h. fmlookup (entries view) h \<noteq> None \<longrightarrow>
            fmlookup (entries view') h = fmlookup (entries view) h) \<and>
         (\<forall>k. fmlookup (entries (commit view')) k \<noteq> Some None)"
proof (intro conjI ballI allI impI)
  fix h assume h: "h \<in> set txSet" "utxoBucketGet db h = None \<and> fmlookup (entries view) h = None"
  from assms h(1) have "fetchLoop db txSet view = Inr view'"
    by (auto simp: fetchUtxosMain_def split: if_splits)
  from fetchLoop_missing[OF this h(1)] h(2)
  have l: "fmlookup (entries view') h = Some None" by simp
  show "fmlookup (entries view') h = Some None" using l .
  show "LookupEntry view' h = None" using l by (simp add: LookupEntry_def)
  show "fmlookup (entries (commit view')) h = None" using l by (rule commit_drops_nil)
next
  fix h assume h: "fmlookup (entries view) h \<noteq> None"
  show "fmlookup (entries view') h = fmlookup (entries view) h"
  proof (cases "length txSet = 0")
    case True
    then show ?thesis using assms by (simp add: fetchUtxosMain_def)
  next
    case False
    then have "fetchLoop db txSet view = Inr view'" using assms by (simp add: fetchUtxosMain_def)
    from fetchLoop_keeps[OF this h] show ?thesis .
  qed
next
  fix k show "fmlookup (entries (commit view')) k \<noteq> Some None" by (rule commit_no_nil)
qed

theorem fetchUtxosMain_missing_is_nil_witness:
  "\<exists>view'. fetchUtxosMain emptyDb view0 [7, 101] = Inr view' \<and>
     utxoBucketGet emptyDb 7 = None \<and> fmlookup (entries view0) 7 = None \<and>
     fmlookup (entries view0) 101 \<noteq> None \<and>
     fmlookup (entries view') 7 = Some None \<and> LookupEntry view' 7 = None \<and>
     fmlookup (entries (commit view')) 7 = None \<and>
     fmlookup (entries view') 101 = fmlookup (entries view0) 101"
proof -
  have run: "fetchUtxosMain emptyDb view0 [7, 101] =
      Inr (view0\<lparr>entries := fmupd 7 None (entries view0)\<rparr>)"
    by (simp add: fetchUtxosMain_def view0_def AddTxOuts_def T1_def NewUtxoViewpoint_def
        emptyDb_def dbFetchUtxoEntry_def Let_def)
  have pre: "utxoBucketGet emptyDb 7 = None" "fmlookup (entries view0) 7 = None"
    "fmlookup (entries view0) 101 \<noteq> None"
    by (simp_all add: emptyDb_def view0_def AddTxOuts_def T1_def NewUtxoViewpoint_def Let_def)
  note r = fetchUtxosMain_missing_is_nil[OF run]
  have "fmlookup (entries (view0\<lparr>entries := fmupd 7 None (entries view0)\<rparr>)) 7 = Some None \<and>
     LookupEntry (view0\<lparr>entries := fmupd 7 None (entries view0)\<rparr>) 7 = None \<and>
     fmlookup (entries (commit (view0\<lparr>entries := fmupd 7 None (entries view0)\<rparr>))) 7 = None"
    using r pre(1,2) by simp
  moreover have "fmlookup (entries (view0\<lparr>entries := fmupd 7 None (entries view0)\<rparr>)) 101 =
     fmlookup (entries view0) 101"
    using r pre(3) by blast
  ultimately show ?thesis using run pre by blast
qed

subsection \<open>Connect and disconnect round trip\<close>

lemma INV_init:
  "\<forall>h \<in> HB. \<forall>e. LookupEntry V h = Some e \<longrightarrow> IsFullySpent e \<Longrightarrow> INV V HB {} {} V"
  by (auto simp: INV_def extRel_def hdrEq_def LookupEntry_def split: option.splits)

lemma unspent_not_fully: "fmlookup (sparseOutputs e) i = Some out \<Longrightarrow> \<not> spent out \<Longrightarrow> \<not> IsFullySpent e"
  by (auto simp: IsFullySpent_def fmpred_iff)

lemma extRel_mono: "P \<subseteq> P' \<Longrightarrow> extRel V P h x \<Longrightarrow> extRel V P' h x"
  unfolding extRel_def by (cases "LookupEntry V h") (simp, fastforce)

lemma INV_mono: "P \<subseteq> P' \<Longrightarrow> INV V HB D P W \<Longrightarrow> INV V HB D P' W"
  unfolding INV_def using extRel_mono by blast

lemma LookupEntry_upd:
  "LookupEntry (W\<lparr>entries := fmupd k x (entries W)\<rparr>) h = (if k = h then x else LookupEntry W h)"
  by (simp add: LookupEntry_def)

lemma INV_upd_block:
  assumes "INV V HB D P W" and "k \<in> HB"
  shows "INV V HB (insert k D) P (W\<lparr>entries := fmupd k (Some e) (entries W)\<rparr>)"
  unfolding INV_def
proof (intro conjI allI impI ballI)
  fix h assume "h \<notin> HB"
  then have "h \<noteq> k" using assms(2) by auto
  then show "extRel V P h (fmlookup (entries (W\<lparr>entries := fmupd k (Some e) (entries W)\<rparr>)) h)"
    using assms(1) \<open>h \<notin> HB\<close> by (simp add: INV_def)
next
  fix h assume "h \<in> insert k D"
  then show "LookupEntry (W\<lparr>entries := fmupd k (Some e) (entries W)\<rparr>) h \<noteq> None"
    using assms(1) by (auto simp: LookupEntry_upd INV_def)
next
  fix h e' assume "h \<in> HB - insert k D"
    and "LookupEntry (W\<lparr>entries := fmupd k (Some e) (entries W)\<rparr>) h = Some e'"
  then show "IsFullySpent e'"
    using assms(1) by (auto simp: LookupEntry_upd INV_def)
qed

lemma INV_upd_ext:
  assumes "INV V HB D P W" and "k \<notin> HB" and "extRel V P k (Some (Some e))"
  shows "INV V HB D P (W\<lparr>entries := fmupd k (Some e) (entries W)\<rparr>)"
  unfolding INV_def
proof (intro conjI allI impI ballI)
  fix h assume "h \<notin> HB"
  then show "extRel V P h (fmlookup (entries (W\<lparr>entries := fmupd k (Some e) (entries W)\<rparr>)) h)"
    using assms by (cases "h = k") (simp_all add: INV_def)
next
  fix h assume "h \<in> D"
  then have "h \<noteq> k \<or> True" by simp
  show "LookupEntry (W\<lparr>entries := fmupd k (Some e) (entries W)\<rparr>) h \<noteq> None"
    using assms(1) \<open>h \<in> D\<close> by (auto simp: LookupEntry_upd INV_def)
next
  fix h e' assume "h \<in> HB - D"
    and l: "LookupEntry (W\<lparr>entries := fmupd k (Some e) (entries W)\<rparr>) h = Some e'"
  then have "h \<noteq> k" using assms(2) by auto
  then show "IsFullySpent e'"
    using assms(1) \<open>h \<in> HB - D\<close> l by (auto simp: LookupEntry_upd INV_def)
qed

lemma INV_block_in_D:
  assumes "INV V HB D P W" and "k \<in> HB" and "LookupEntry W k = Some e" and "\<not> IsFullySpent e"
  shows "k \<in> D"
proof (rule ccontr)
  assume "k \<notin> D"
  with assms(2) have "k \<in> HB - D" by simp
  with assms(1,3) have "IsFullySpent e" unfolding INV_def by blast
  with assms(4) show False by simp
qed

lemma INV_ext_entry:
  assumes "INV V HB D P W" and "k \<notin> HB" and "LookupEntry W k = Some e'"
  shows "\<exists>e. LookupEntry V k = Some e \<and> hdrEq e e' \<and>
             (\<forall>idx. fmlookup (sparseOutputs e') idx = fmlookup (sparseOutputs e) idx \<or>
                ((k, idx) \<in> P \<and>
                 (\<exists>out. fmlookup (sparseOutputs e) idx = Some out \<and> \<not> spent out \<and>
                    fmlookup (sparseOutputs e') idx = Some (out\<lparr>spent := True\<rparr>)))) \<and>
             (e' \<noteq> e \<longrightarrow> \<not> IsFullySpent e)"
proof -
  have er: "extRel V P k (fmlookup (entries W) k)" using assms by (simp add: INV_def)
  have wl: "fmlookup (entries W) k = Some (Some e')"
    using assms(3) by (auto simp: LookupEntry_def split: option.splits)
  show ?thesis
  proof (cases "LookupEntry V k")
    case None
    then have "fmlookup (entries W) k = fmlookup (entries V) k" using er by (simp add: extRel_def)
    then have "fmlookup (entries V) k = Some (Some e')" using wl by simp
    then have "LookupEntry V k = Some e'" by (simp add: LookupEntry_def)
    with None show ?thesis by simp
  next
    case (Some e)
    then show ?thesis using er wl by (simp add: extRel_def)
  qed
qed

lemma spend_step:
  assumes inv: "INV V HB D P W" and sp: "spendable W txIn"
  shows "INV V HB D (insert (outpoint txIn) P) (spendInput W txIn) \<and>
         (fst (outpoint txIn) \<in> D \<or> (fst (outpoint txIn) \<notin> HB \<and> unspentIn V (outpoint txIn)))"
proof -
  let ?h = "Hash (PreviousOut txIn)" and ?i = "OutIndex (PreviousOut txIn)"
  from sp obtain e' out' where
    le: "LookupEntry W ?h = Some e'" and lo: "fmlookup (sparseOutputs e') ?i = Some out'" and ns: "\<not> spent out'"
    by (auto simp: spendable_def split: option.splits)
  have W': "spendInput W txIn = W\<lparr>entries := fmupd ?h (Some (SpendOutput e' ?i)) (entries W)\<rparr>"
    using le by (simp add: spendInput_def)
  have so: "SpendOutput e' ?i = e'\<lparr>sparseOutputs := fmupd ?i (out'\<lparr>spent := True\<rparr>) (sparseOutputs e'), modified := True\<rparr>"
    using lo ns by (simp add: SpendOutput_def)
  have inv': "INV V HB D (insert (outpoint txIn) P) W"
    using inv by (rule INV_mono[rotated]) auto
  show ?thesis
  proof (cases "?h \<in> HB")
    case True
    have "\<not> IsFullySpent e'" using lo ns by (rule unspent_not_fully)
    with inv True le have hD: "?h \<in> D" by (rule INV_block_in_D)
    have "INV V HB (insert ?h D) (insert (outpoint txIn) P) (spendInput W txIn)"
      unfolding W' using inv' True by (rule INV_upd_block)
    then show ?thesis using hD by (simp add: outpoint_def insert_absorb)
  next
    case False
    from INV_ext_entry[OF inv False le] obtain e where
      ve: "LookupEntry V ?h = Some e" and hd: "hdrEq e e'" and
      pt: "\<forall>idx. fmlookup (sparseOutputs e') idx = fmlookup (sparseOutputs e) idx \<or>
                (( ?h, idx) \<in> P \<and>
                 (\<exists>out. fmlookup (sparseOutputs e) idx = Some out \<and> \<not> spent out \<and>
                    fmlookup (sparseOutputs e') idx = Some (out\<lparr>spent := True\<rparr>)))"
      by blast
    from pt[rule_format, of ?i] lo ns have eo: "fmlookup (sparseOutputs e) ?i = Some out'"
      by auto
    have uns: "unspentIn V (outpoint txIn)"
      using ve eo ns by (auto simp: unspentIn_def outpoint_def)
    have nfs: "\<not> IsFullySpent e" using eo ns by (rule unspent_not_fully)
    have hd': "hdrEq e (SpendOutput e' ?i)" using hd by (simp add: so hdrEq_def)
    have pt': "\<forall>idx. fmlookup (sparseOutputs (SpendOutput e' ?i)) idx = fmlookup (sparseOutputs e) idx \<or>
                (( ?h, idx) \<in> insert (outpoint txIn) P \<and>
                 (\<exists>out. fmlookup (sparseOutputs e) idx = Some out \<and> \<not> spent out \<and>
                    fmlookup (sparseOutputs (SpendOutput e' ?i)) idx = Some (out\<lparr>spent := True\<rparr>)))"
    proof
      fix idx
      show "fmlookup (sparseOutputs (SpendOutput e' ?i)) idx = fmlookup (sparseOutputs e) idx \<or>
                (( ?h, idx) \<in> insert (outpoint txIn) P \<and>
                 (\<exists>out. fmlookup (sparseOutputs e) idx = Some out \<and> \<not> spent out \<and>
                    fmlookup (sparseOutputs (SpendOutput e' ?i)) idx = Some (out\<lparr>spent := True\<rparr>)))"
      proof (cases "idx = ?i")
        case True
        then show ?thesis using eo ns by (simp add: so outpoint_def)
      next
        case False
        then show ?thesis using pt[rule_format, of idx] by (auto simp: so)
      qed
    qed
    have new: "extRel V (insert (outpoint txIn) P) ?h (Some (Some (SpendOutput e' ?i)))"
      unfolding extRel_def using ve hd' nfs pt' by simp
    have "INV V HB D (insert (outpoint txIn) P) (spendInput W txIn)"
      unfolding W' using inv' False new by (rule INV_upd_ext)
    then show ?thesis using uns False by (simp add: outpoint_def)
  qed
qed

lemma connectInputs_ok:
  "spendableIns ins W \<Longrightarrow> INV V HB D P W \<Longrightarrow>
   \<exists>j'. connectInputs k n ins W (Some j) = Inr (foldl spendInput W ins, Some j') \<and>
     (j \<noteq> [] \<or> ins \<noteq> [] \<longrightarrow> j' \<noteq> []) \<and>
     INV V HB D (P \<union> outpoint ` set ins) (foldl spendInput W ins) \<and>
     (\<forall>txIn \<in> set ins. fst (outpoint txIn) \<in> D \<or>
        (fst (outpoint txIn) \<notin> HB \<and> unspentIn V (outpoint txIn)))"
proof (induction ins arbitrary: W P j n)
  case Nil
  then show ?case by simp
next
  case (Cons txIn rest)
  from Cons.prems(1) have sp: "spendable W txIn" and sr: "spendableIns rest (spendInput W txIn)"
    by simp_all
  from sp obtain e0 where le: "LookupEntry W (Hash (PreviousOut txIn)) = Some e0"
    by (auto simp: spendable_def split: option.splits)
  have W': "spendInput W txIn =
      W\<lparr>entries := fmupd (Hash (PreviousOut txIn))
                      (Some (SpendOutput e0 (OutIndex (PreviousOut txIn)))) (entries W)\<rparr>"
    using le by (simp add: spendInput_def)
  from spend_step[OF Cons.prems(2) sp]
  have inv1: "INV V HB D (insert (outpoint txIn) P) (spendInput W txIn)"
    and st: "fst (outpoint txIn) \<in> D \<or> (fst (outpoint txIn) \<notin> HB \<and> unspentIn V (outpoint txIn))"
    by simp_all
  define stxo where "stxo =
     \<lparr>stxo_amount = AmountByIndex (SpendOutput e0 (OutIndex (PreviousOut txIn))) (OutIndex (PreviousOut txIn)),
      stxo_scriptVersion = ScriptVersionByIndex (SpendOutput e0 (OutIndex (PreviousOut txIn))) (OutIndex (PreviousOut txIn)),
      stxo_pkScript = PkScriptByIndex (SpendOutput e0 (OutIndex (PreviousOut txIn))) (OutIndex (PreviousOut txIn)),
      stxo_txIndex = k,
      stxo_inIndex = of_nat n,
      stxo_txVersion = txVersion (SpendOutput e0 (OutIndex (PreviousOut txIn))),
      stxo_order = order (SpendOutput e0 (OutIndex (PreviousOut txIn))),
      stxo_isCoinBase = isCoinBase (SpendOutput e0 (OutIndex (PreviousOut txIn))),
      stxo_hasExpiry = hasExpiry (SpendOutput e0 (OutIndex (PreviousOut txIn))),
      stxo_txType = txType (SpendOutput e0 (OutIndex (PreviousOut txIn))),
      stxo_txFullySpent = IsFullySpent (SpendOutput e0 (OutIndex (PreviousOut txIn)))\<rparr>"
  have step: "connectInputs k n (txIn # rest) W (Some j) =
      connectInputs k (Suc n) rest (spendInput W txIn) (Some (j @ [stxo]))"
    using le by (simp add: W' Let_def stxo_def)
  from Cons.IH[OF sr inv1, where n="Suc n" and j="j @ [stxo]"] obtain j' where
    r: "connectInputs k (Suc n) rest (spendInput W txIn) (Some (j @ [stxo])) =
          Inr (foldl spendInput (spendInput W txIn) rest, Some j')"
    and ne: "j' \<noteq> []"
    and inv2: "INV V HB D (insert (outpoint txIn) P \<union> outpoint ` set rest)
                 (foldl spendInput (spendInput W txIn) rest)"
    and st2: "\<forall>txIn \<in> set rest. fst (outpoint txIn) \<in> D \<or>
        (fst (outpoint txIn) \<notin> HB \<and> unspentIn V (outpoint txIn))"
    by auto
  have seteq: "insert (outpoint txIn) P \<union> outpoint ` set rest = P \<union> outpoint ` set (txIn # rest)"
    by auto
  show ?case
    using step r ne inv2 st st2 unfolding seteq by auto
qed

lemma AddTxOuts_INV:
  assumes "INV V HB D P W" and "txHash t \<in> HB"
  shows "INV V HB (insert (txHash t) D) P (AddTxOuts lib W t ord i)"
  using INV_upd_block[OF assms] by (simp add: AddTxOuts_def Let_def)

lemma pending_Cons:
  "pending lib (t # ts) = (if IsCoinBaseTx lib t then {} else outpoint ` set (TxIn t)) \<union> pending lib ts"
  by (auto simp: pending_def)

lemma connectEach_ok:
  "inputsResolvable lib ord i txs W \<Longrightarrow> INV V HB D P W \<Longrightarrow> set (map txHash txs) \<subseteq> HB \<Longrightarrow>
   \<exists>W' j'. connectEach lib ord i txs W (Some j) = Inr (W', Some j') \<and>
     (j' = [] \<longrightarrow> (\<forall>t \<in> set txs. \<not> IsCoinBaseTx lib t \<longrightarrow> TxIn t = [])) \<and> (j \<noteq> [] \<longrightarrow> j' \<noteq> []) \<and>
     INV V HB (D \<union> set (map txHash txs)) (P \<union> pending lib txs) W' \<and>
     refsF lib V HB D txs"
proof (induction txs arbitrary: W D P j i)
  case Nil
  then show ?case by (simp add: pending_def)
next
  case (Cons t ts)
  have tHB: "txHash t \<in> HB" and tsHB: "set (map txHash ts) \<subseteq> HB"
    using Cons.prems(3) by auto
  show ?case
  proof (cases "IsCoinBaseTx lib t")
    case True
    from Cons.prems(1) True
    have res: "inputsResolvable lib ord (Suc i) ts (AddTxOuts lib W t ord (of_nat i))" by simp
    have inv1: "INV V HB (insert (txHash t) D) P (AddTxOuts lib W t ord (of_nat i))"
      using Cons.prems(2) tHB by (rule AddTxOuts_INV)
    from Cons.IH[OF res inv1 tsHB, where j=j] obtain W' j' where
      r: "connectEach lib ord (Suc i) ts (AddTxOuts lib W t ord (of_nat i)) (Some j) = Inr (W', Some j')"
      and c1: "j' = [] \<longrightarrow> (\<forall>t \<in> set ts. \<not> IsCoinBaseTx lib t \<longrightarrow> TxIn t = [])"
      and c2: "j \<noteq> [] \<longrightarrow> j' \<noteq> []"
      and inv2: "INV V HB (insert (txHash t) D \<union> set (map txHash ts)) (P \<union> pending lib ts) W'"
      and rf: "refsF lib V HB (insert (txHash t) D) ts"
      by blast
    have step: "connectEach lib ord i (t # ts) W (Some j) = Inr (W', Some j')"
      using True r by (simp add: connectTransaction_def)
    have seteq: "insert (txHash t) D \<union> set (map txHash ts) = D \<union> set (map txHash (t # ts))"
      by auto
    show ?thesis
      using step c1 c2 inv2 rf True unfolding seteq by (auto simp: pending_Cons)
  next
    case False
    from Cons.prems(1) False
    have sp: "spendableIns (TxIn t) W"
      and res: "inputsResolvable lib ord (Suc i) ts
                  (AddTxOuts lib (foldl spendInput W (TxIn t)) t ord (of_nat i))"
      by simp_all
    from connectInputs_ok[OF sp Cons.prems(2), where k="of_nat i" and n=0 and j=j] obtain j1 where
      ci: "connectInputs (of_nat i) 0 (TxIn t) W (Some j) = Inr (foldl spendInput W (TxIn t), Some j1)"
      and n1: "j \<noteq> [] \<or> TxIn t \<noteq> [] \<longrightarrow> j1 \<noteq> []"
      and inv0: "INV V HB D (P \<union> outpoint ` set (TxIn t)) (foldl spendInput W (TxIn t))"
      and st: "\<forall>txIn \<in> set (TxIn t). fst (outpoint txIn) \<in> D \<or>
        (fst (outpoint txIn) \<notin> HB \<and> unspentIn V (outpoint txIn))"
      by blast
    have inv1: "INV V HB (insert (txHash t) D) (P \<union> outpoint ` set (TxIn t))
                  (AddTxOuts lib (foldl spendInput W (TxIn t)) t ord (of_nat i))"
      using inv0 tHB by (rule AddTxOuts_INV)
    from Cons.IH[OF res inv1 tsHB, where j=j1] obtain W' j' where
      r: "connectEach lib ord (Suc i) ts (AddTxOuts lib (foldl spendInput W (TxIn t)) t ord (of_nat i)) (Some j1)
            = Inr (W', Some j')"
      and c1: "j' = [] \<longrightarrow> (\<forall>t \<in> set ts. \<not> IsCoinBaseTx lib t \<longrightarrow> TxIn t = [])"
      and c2: "j1 \<noteq> [] \<longrightarrow> j' \<noteq> []"
      and inv2: "INV V HB (insert (txHash t) D \<union> set (map txHash ts))
                   (P \<union> outpoint ` set (TxIn t) \<union> pending lib ts) W'"
      and rf: "refsF lib V HB (insert (txHash t) D) ts"
      by blast
    have step: "connectEach lib ord i (t # ts) W (Some j) = Inr (W', Some j')"
      using False ci r by (simp add: connectTransaction_def)
    have seteq: "insert (txHash t) D \<union> set (map txHash ts) = D \<union> set (map txHash (t # ts))"
      by auto
    have peq: "P \<union> outpoint ` set (TxIn t) \<union> pending lib ts = P \<union> pending lib (t # ts)"
      using False by (auto simp: pending_Cons)
    show ?thesis
      using step c1 c2 n1 inv2 rf st False unfolding seteq peq by auto
  qed
qed

lemma cleared_upd_other:
  "cleared W h \<Longrightarrow> k \<noteq> h \<Longrightarrow> cleared (W\<lparr>entries := fmupd k x (entries W)\<rparr>) h"
  by (simp add: cleared_def)

lemma unspend_same: "\<not> spent out \<Longrightarrow> out\<lparr>spent := False\<rparr> = out"
  by (cases out) simp

lemma extRel_remove_other:
  "extRel V P h x \<Longrightarrow> h \<noteq> fst p \<Longrightarrow> extRel V (P - {p}) h x"
  unfolding extRel_def by (cases "LookupEntry V h") (simp, cases p, fastforce)

lemma GetSpentTxOut_Some: "stxos \<noteq> [] \<Longrightarrow> \<exists>s. GetSpentTxOut a b stxos = Some s"
  by (simp add: GetSpentTxOut_def)

lemma INV_remove_blockpoint:
  assumes "INV V HB D P W" and "fst p \<in> HB"
  shows "INV V HB D (P - {p}) W"
  unfolding INV_def
proof (intro conjI allI impI)
  fix k assume k: "k \<notin> HB"
  then have "k \<noteq> fst p" using assms(2) by auto
  moreover have "extRel V P k (fmlookup (entries W) k)" using assms(1) k by (simp add: INV_def)
  ultimately show "extRel V (P - {p}) k (fmlookup (entries W) k)"
    by (simp add: extRel_remove_other)
next
  show "\<forall>h\<in>D. LookupEntry W h \<noteq> None" using assms(1) by (simp add: INV_def)
next
  show "\<forall>h\<in>HB - D. \<forall>e. LookupEntry W h = Some e \<longrightarrow> IsFullySpent e"
    using assms(1) by (simp add: INV_def)
qed

lemma INV_upd_ext_shrink:
  assumes "INV V HB D P W" and "k \<notin> HB" and "extRel V (P - {(k, idx)}) k (Some (Some e))"
  shows "INV V HB D (P - {(k, idx)}) (W\<lparr>entries := fmupd k (Some e) (entries W)\<rparr>)"
  unfolding INV_def
proof (intro conjI allI impI ballI)
  fix h assume h: "h \<notin> HB"
  show "extRel V (P - {(k, idx)}) h (fmlookup (entries (W\<lparr>entries := fmupd k (Some e) (entries W)\<rparr>)) h)"
  proof (cases "h = k")
    case True
    then show ?thesis using assms(3) by simp
  next
    case False
    have "extRel V P h (fmlookup (entries W) h)" using assms(1) h by (simp add: INV_def)
    then have "extRel V (P - {(k, idx)}) h (fmlookup (entries W) h)"
      using False by (simp add: extRel_remove_other)
    then show ?thesis using False by simp
  qed
next
  fix h assume "h \<in> D"
  then show "LookupEntry (W\<lparr>entries := fmupd k (Some e) (entries W)\<rparr>) h \<noteq> None"
    using assms(1) by (auto simp: LookupEntry_upd INV_def)
next
  fix h e' assume hh: "h \<in> HB - D"
    and l: "LookupEntry (W\<lparr>entries := fmupd k (Some e) (entries W)\<rparr>) h = Some e'"
  then have "h \<noteq> k" using assms(2) by auto
  then show "IsFullySpent e'"
    using assms(1) hh l by (auto simp: LookupEntry_upd INV_def)
qed

lemma unspend_block:
  assumes inv: "INV V HB HB P W" and hD: "h \<in> HB"
  shows "\<exists>e. LookupEntry W h = Some e \<and>
     (\<forall>x. INV V HB HB (P - {(h, idx)}) (W\<lparr>entries := fmupd h (Some x) (entries W)\<rparr>))"
proof -
  from inv hD obtain e where le: "LookupEntry W h = Some e" by (auto simp: INV_def)
  have "\<And>x. INV V HB HB (P - {(h, idx)}) (W\<lparr>entries := fmupd h (Some x) (entries W)\<rparr>)"
  proof -
    fix x
    have "INV V HB (insert h HB) P (W\<lparr>entries := fmupd h (Some x) (entries W)\<rparr>)"
      using inv hD by (rule INV_upd_block)
    then have "INV V HB HB P (W\<lparr>entries := fmupd h (Some x) (entries W)\<rparr>)"
      using hD by (simp add: insert_absorb)
    then show "INV V HB HB (P - {(h, idx)}) (W\<lparr>entries := fmupd h (Some x) (entries W)\<rparr>)"
      using hD by (simp add: INV_remove_blockpoint)
  qed
  then show ?thesis using le by blast
qed

lemma unspend_ext:
  assumes inv: "INV V HB HB P W" and hN: "h \<notin> HB" and un: "unspentIn V (h, idx)"
  shows "\<exists>e' out'. LookupEntry W h = Some e' \<and> fmlookup (sparseOutputs e') idx = Some out' \<and>
     INV V HB HB (P - {(h, idx)})
       (W\<lparr>entries := fmupd h
          (Some (e'\<lparr>modified := True,
                    sparseOutputs := fmupd idx (out'\<lparr>spent := False\<rparr>) (sparseOutputs e')\<rparr>))
          (entries W)\<rparr>)"
proof -
  from un obtain e out where ve: "LookupEntry V h = Some e"
    and eo: "fmlookup (sparseOutputs e) idx = Some out" and ns: "\<not> spent out"
    by (auto simp: unspentIn_def)
  have er: "extRel V P h (fmlookup (entries W) h)" using inv hN by (simp add: INV_def)
  from er ve obtain e' where wl: "fmlookup (entries W) h = Some (Some e')" and hd: "hdrEq e e'"
    and pt: "\<forall>i. fmlookup (sparseOutputs e') i = fmlookup (sparseOutputs e) i \<or>
                ((h, i) \<in> P \<and>
                 (\<exists>out. fmlookup (sparseOutputs e) i = Some out \<and> \<not> spent out \<and>
                    fmlookup (sparseOutputs e') i = Some (out\<lparr>spent := True\<rparr>)))"
    by (auto simp: extRel_def)
  have le: "LookupEntry W h = Some e'" using wl by (simp add: LookupEntry_def)
  from pt[rule_format, of idx] eo obtain out' where
    lo: "fmlookup (sparseOutputs e') idx = Some out'" and bk: "out'\<lparr>spent := False\<rparr> = out"
    using ns by (auto simp: unspend_same)
  let ?e'' = "e'\<lparr>modified := True, sparseOutputs := fmupd idx (out'\<lparr>spent := False\<rparr>) (sparseOutputs e')\<rparr>"
  have nfs: "\<not> IsFullySpent e" using eo ns by (rule unspent_not_fully)
  have hd': "hdrEq e ?e''" using hd by (simp add: hdrEq_def)
  have pt': "\<forall>i. fmlookup (sparseOutputs ?e'') i = fmlookup (sparseOutputs e) i \<or>
                ((h, i) \<in> P - {(h, idx)} \<and>
                 (\<exists>out. fmlookup (sparseOutputs e) i = Some out \<and> \<not> spent out \<and>
                    fmlookup (sparseOutputs ?e'') i = Some (out\<lparr>spent := True\<rparr>)))"
  proof
    fix i
    show "fmlookup (sparseOutputs ?e'') i = fmlookup (sparseOutputs e) i \<or>
                ((h, i) \<in> P - {(h, idx)} \<and>
                 (\<exists>out. fmlookup (sparseOutputs e) i = Some out \<and> \<not> spent out \<and>
                    fmlookup (sparseOutputs ?e'') i = Some (out\<lparr>spent := True\<rparr>)))"
    proof (cases "i = idx")
      case True
      then show ?thesis using eo bk by simp
    next
      case False
      then show ?thesis using pt[rule_format, of i] by auto
    qed
  qed
  have new: "extRel V (P - {(h, idx)}) h (Some (Some ?e''))"
    unfolding extRel_def using ve hd' nfs pt' by simp
  have "INV V HB HB (P - {(h, idx)}) (W\<lparr>entries := fmupd h (Some ?e'') (entries W)\<rparr>)"
    using inv hN new by (rule INV_upd_ext_shrink)
  then show ?thesis using le lo by blast
qed

lemma disconnectInputs_ok:
  assumes "INV V HB HB P W" and "stxos \<noteq> []"
    and "\<forall>txIn \<in> set ins. fst (outpoint txIn) \<in> Dk \<or>
           (fst (outpoint txIn) \<notin> HB \<and> unspentIn V (outpoint txIn))"
    and "Dk \<subseteq> HB" and "\<forall>h \<in> C. cleared W h" and "C \<inter> Dk = {}" and "C \<subseteq> HB"
  shows "\<exists>W'. disconnectInputs tx txIdx stxos ins W = Inr W' \<and>
           INV V HB HB (P - outpoint ` set ins) W' \<and> (\<forall>h \<in> C. cleared W' h)"
  using assms(1,3,5)
proof (induction ins arbitrary: W P)
  case Nil
  then show ?case by simp
next
  case (Cons txIn rest)
  let ?h = "Hash (PreviousOut txIn)" and ?i = "OutIndex (PreviousOut txIn)"
  from GetSpentTxOut_Some[OF assms(2)] obtain stxo where
    gs: "GetSpentTxOut txIdx (length rest) stxos = Some stxo" by blast
  have refs_rest: "\<forall>txIn \<in> set rest. fst (outpoint txIn) \<in> Dk \<or>
           (fst (outpoint txIn) \<notin> HB \<and> unspentIn V (outpoint txIn))"
    using Cons.prems(2) by simp
  have here: "?h \<in> Dk \<or> (?h \<notin> HB \<and> unspentIn V (?h, ?i))"
    using Cons.prems(2) by (simp add: outpoint_def)
  have seteq: "P - {(?h, ?i)} - outpoint ` set rest = P - outpoint ` set (txIn # rest)"
    by (auto simp: outpoint_def)
  show ?case
  proof (cases "?h \<in> Dk")
    case True
    then have hHB: "?h \<in> HB" using assms(4) by auto
    have hC: "?h \<notin> C" using True assms(6) by auto
    from unspend_block[OF Cons.prems(1) hHB, of ?i] obtain e where
      le: "LookupEntry W ?h = Some e"
      and inv1: "\<And>x. INV V HB HB (P - {(?h, ?i)}) (W\<lparr>entries := fmupd ?h (Some x) (entries W)\<rparr>)"
      by blast
    define x where "x = e\<lparr>modified := True,
       sparseOutputs :=
         (case fmlookup (sparseOutputs e) ?i of
            None \<Rightarrow> fmupd ?i \<lparr>scriptVersion = stxo_scriptVersion stxo, pkScript = stxo_pkScript stxo,
                                amount = stxo_amount stxo, spent = False\<rparr> (sparseOutputs e)
          | Some output \<Rightarrow> fmupd ?i (output\<lparr>spent := False\<rparr>) (sparseOutputs e))\<rparr>"
    have step: "disconnectInputs tx txIdx stxos (txIn # rest) W =
        disconnectInputs tx txIdx stxos rest (W\<lparr>entries := fmupd ?h (Some x) (entries W)\<rparr>)"
      using gs le by (simp add: Let_def x_def split: option.splits)
    have cl1: "\<forall>k \<in> C. cleared (W\<lparr>entries := fmupd ?h (Some x) (entries W)\<rparr>) k"
      using Cons.prems(3) hC by (auto intro: cleared_upd_other)
    from Cons.IH[OF inv1 refs_rest cl1] show ?thesis
      unfolding step seteq by blast
  next
    case False
    with here have hN: "?h \<notin> HB" and un: "unspentIn V (?h, ?i)" by auto
    have hC: "?h \<notin> C" using hN assms(7) by auto
    from unspend_ext[OF Cons.prems(1) hN un] obtain e' out' where
      le: "LookupEntry W ?h = Some e'" and lo: "fmlookup (sparseOutputs e') ?i = Some out'"
      and inv1: "INV V HB HB (P - {(?h, ?i)})
         (W\<lparr>entries := fmupd ?h
            (Some (e'\<lparr>modified := True,
                      sparseOutputs := fmupd ?i (out'\<lparr>spent := False\<rparr>) (sparseOutputs e')\<rparr>))
            (entries W)\<rparr>)"
      by blast
    let ?W1 = "W\<lparr>entries := fmupd ?h
            (Some (e'\<lparr>modified := True,
                      sparseOutputs := fmupd ?i (out'\<lparr>spent := False\<rparr>) (sparseOutputs e')\<rparr>))
            (entries W)\<rparr>"
    have step: "disconnectInputs tx txIdx stxos (txIn # rest) W =
        disconnectInputs tx txIdx stxos rest ?W1"
      using gs le lo by (simp add: Let_def split: option.splits)
    have cl1: "\<forall>k \<in> C. cleared ?W1 k"
      using Cons.prems(3) hC by (auto intro: cleared_upd_other)
    from Cons.IH[OF inv1 refs_rest cl1] show ?thesis
      unfolding step seteq by blast
  qed
qed

lemma disconnectLoop_ok:
  assumes "stxos \<noteq> [] \<or> noInsR xs" and "INV V HB HB P W" and "set (map txHash xs) \<subseteq> HB"
    and "\<forall>h \<in> C. cleared W h" and "C \<inter> set (map txHash xs) = {}"
    and "C \<subseteq> HB" and "refsR V HB xs"
  shows "\<exists>W'. disconnectLoop b stxos xs W = Inr W' \<and> INV V HB HB (P - pendR xs) W' \<and>
           (\<forall>h \<in> C \<union> set (map txHash xs). cleared W' h)"
  using assms
proof (induction xs arbitrary: W P C)
  case Nil
  then show ?case by simp
next
  case (Cons t r)
  have tHB: "txHash t \<in> HB" using Cons.prems(3) by simp
  from Cons.prems(2) tHB obtain e where le: "LookupEntry W (txHash t) = Some e"
    by (auto simp: INV_def)
  let ?W1 = "W\<lparr>entries := fmupd (txHash t) (Some (e\<lparr>modified := True, sparseOutputs := fmempty\<rparr>)) (entries W)\<rparr>"
  have inv1: "INV V HB HB P ?W1"
    using INV_upd_block[OF Cons.prems(2) tHB] tHB by (simp add: insert_absorb)
  have tC: "txHash t \<notin> C" using Cons.prems(5) by auto
  let ?C1 = "C \<union> ({txHash t} - set (map txHash r))"
  have cl1: "\<forall>h \<in> ?C1. cleared ?W1 h"
  proof
    fix h assume "h \<in> ?C1"
    then consider "h = txHash t" | "h \<in> C" by auto
    then show "cleared ?W1 h"
    proof cases
      case 1
      then show ?thesis by (simp add: cleared_def)
    next
      case 2
      then have "h \<noteq> txHash t" using tC by auto
      then show ?thesis using Cons.prems(4) 2 by (auto intro: cleared_upd_other)
    qed
  qed
  have C1r: "?C1 \<inter> set (map txHash r) = {}"
    using Cons.prems(5) by auto
  have C1HB: "?C1 \<subseteq> HB" using Cons.prems(6) tHB by auto
  have rHB: "set (map txHash r) \<subseteq> HB" using Cons.prems(3) by simp
  have rrefs: "refsR V HB r" using Cons.prems(7) by simp
  have rj: "stxos \<noteq> [] \<or> noInsR r" using Cons.prems(1) by auto
  show ?case
  proof (cases "r = []")
    case True
    have "disconnectLoop b stxos (t # r) W = Inr ?W1"
      using True le by (simp add: Let_def)
    then show ?thesis using inv1 cl1 True by auto
  next
    case False
    have refs_t: "\<forall>txIn \<in> set (rev (TxIn t)). fst (outpoint txIn) \<in> set (map txHash r) \<or>
          (fst (outpoint txIn) \<notin> HB \<and> unspentIn V (outpoint txIn))"
      using Cons.prems(7) False by simp
    have "\<exists>W2. disconnectInputs t (length r) stxos (rev (TxIn t)) ?W1 = Inr W2 \<and>
           INV V HB HB (P - outpoint ` set (rev (TxIn t))) W2 \<and> (\<forall>h \<in> ?C1. cleared W2 h)"
    proof (cases "TxIn t = []")
      case True
      then show ?thesis using inv1 cl1 by simp
    next
      case nonempty: False
      then have "stxos \<noteq> []" using Cons.prems(1) False by auto
      then show ?thesis
        using disconnectInputs_ok[OF inv1 _ refs_t rHB cl1 C1r C1HB] by blast
    qed
    then obtain W2 where
      di: "disconnectInputs t (length r) stxos (rev (TxIn t)) ?W1 = Inr W2"
      and inv2: "INV V HB HB (P - outpoint ` set (rev (TxIn t))) W2"
      and cl2: "\<forall>h \<in> ?C1. cleared W2 h"
      by blast
    from Cons.IH[OF rj inv2 rHB cl2 C1r C1HB rrefs] obtain W' where
      dl: "disconnectLoop b stxos r W2 = Inr W'"
      and inv3: "INV V HB HB (P - outpoint ` set (rev (TxIn t)) - pendR r) W'"
      and cl3: "\<forall>h \<in> ?C1 \<union> set (map txHash r). cleared W' h"
      by blast
    have step: "disconnectLoop b stxos (t # r) W = Inr W'"
      using False le di dl by (simp add: Let_def)
    have seteq: "P - outpoint ` set (rev (TxIn t)) - pendR r = P - pendR (t # r)"
      using False by auto
    show ?thesis using step inv3 cl3 unfolding seteq by auto
  qed
qed

lemma refsF_to_refsR:
  "refsF lib V HB (set (map txHash pre)) ts \<Longrightarrow> \<forall>t \<in> set ts. \<not> IsCoinBaseTx lib t \<Longrightarrow>
   refsR V HB (rev pre) \<Longrightarrow> refsR V HB (rev (pre @ ts))"
proof (induction ts arbitrary: pre)
  case Nil
  then show ?case by simp
next
  case (Cons t ts)
  have D: "set (map txHash (pre @ [t])) = insert (txHash t) (set (map txHash pre))" by simp
  have a: "refsF lib V HB (set (map txHash (pre @ [t]))) ts"
    using Cons.prems(1) unfolding D by simp
  have b: "refsR V HB (rev (pre @ [t]))"
    using Cons.prems by simp
  from Cons.IH[OF a _ b] Cons.prems(2) show ?case by simp
qed

lemma pendR_snoc: "pendR (xs @ [c]) = (\<Union>t \<in> set xs. outpoint ` set (TxIn t))"
  by (induction xs) auto

lemma noInsR_snoc: "noInsR (xs @ [c]) = (\<forall>t \<in> set xs. TxIn t = [])"
  by (induction xs) auto

lemma commit_lookup:
  "fmlookup (entries (commit W)) h =
     (case fmlookup (entries W) h of
        None \<Rightarrow> None
      | Some None \<Rightarrow> None
      | Some (Some e) \<Rightarrow> if modified e \<and> IsFullySpent e then None else Some (Some (e\<lparr>modified := False\<rparr>)))"
  by (auto simp: commit_def commitKeeps_def split: option.splits)

lemma commit_cleared: "cleared W h \<Longrightarrow> fmlookup (entries (commit W)) h = None"
  by (auto simp: commit_lookup cleared_def IsFullySpent_def)

lemma commit_absent: "LookupEntry V h = None \<Longrightarrow> fmlookup (entries (commit V)) h = None"
  by (auto simp: commit_lookup LookupEntry_def split: option.splits)

lemma commit_extRel:
  assumes "extRel V {} h (fmlookup (entries W) h)"
  shows "fmlookup (entries (commit W)) h = fmlookup (entries (commit V)) h"
proof (cases "LookupEntry V h")
  case None
  then have "fmlookup (entries W) h = fmlookup (entries V) h" using assms by (simp add: extRel_def)
  then show ?thesis by (simp add: commit_lookup)
next
  case (Some e)
  with assms obtain e' where wl: "fmlookup (entries W) h = Some (Some e')" and hd: "hdrEq e e'"
    and pt: "\<forall>idx. fmlookup (sparseOutputs e') idx = fmlookup (sparseOutputs e) idx"
    and nf: "e' \<noteq> e \<longrightarrow> \<not> IsFullySpent e"
    by (auto simp: extRel_def)
  have vl: "fmlookup (entries V) h = Some (Some e)"
    using Some by (auto simp: LookupEntry_def split: option.splits)
  have so: "sparseOutputs e' = sparseOutputs e" using pt by (intro fmap_ext) simp
  have e'eq: "e' = e\<lparr>modified := modified e'\<rparr>"
    using hd so unfolding hdrEq_def by (cases e; cases e') simp
  show ?thesis
  proof (cases "e' = e")
    case True
    then show ?thesis using wl vl by (simp add: commit_lookup)
  next
    case False
    then have nfs: "\<not> IsFullySpent e" using nf by simp
    then have nfs': "\<not> IsFullySpent e'" using so by (simp add: IsFullySpent_def)
    have "e'\<lparr>modified := False\<rparr> = e\<lparr>modified := False\<rparr>"
      using e'eq by (cases e; cases e') simp
    then show ?thesis using wl vl nfs nfs' by (simp add: commit_lookup)
  qed
qed

lemma round_trip_steps:
  assumes cb: "coinbaseFirst lib (Transactions block)"
    and free: "hashesFree V (Transactions block)"
    and res: "inputsResolvable lib ord 0 (Transactions block) V"
  shows "\<exists>V1 J V2. connectEach lib ord 0 (Transactions block) V (Some []) = Inr (V1, Some J) \<and>
           disconnectTransactions V1 block J = Inr V2 \<and>
           entries (commit V2) = entries (commit V)"
proof (cases "Transactions block")
  case Nil
  have "entries (commit (V\<lparr>bestHash := blockHash block\<rparr>)) = entries (commit V)"
    by (rule fmap_ext) (simp add: commit_lookup)
  then show ?thesis
    using Nil by (simp add: disconnectTransactions_def)
next
  case (Cons c rest)
  let ?txs = "Transactions block"
  let ?HB = "set (map txHash ?txs)"
  have cbc: "IsCoinBaseTx lib c" and ncb: "\<forall>t \<in> set rest. \<not> IsCoinBaseTx lib t"
    using cb Cons by (simp_all add: coinbaseFirst_def list_all_iff)
  have gone: "\<forall>h \<in> ?HB. fmlookup (entries (commit V)) h = None"
    using free by (auto simp: hashesFree_def list_all_iff)
  have dead: "\<forall>h \<in> ?HB. \<forall>e. LookupEntry V h = Some e \<longrightarrow> IsFullySpent e"
  proof (intro ballI allI impI)
    fix h e assume "h \<in> ?HB" and "LookupEntry V h = Some e"
    then have "fmlookup (entries (commit V)) h = None" and "fmlookup (entries V) h = Some (Some e)"
      using gone by (auto simp: LookupEntry_def split: option.splits)
    then show "IsFullySpent e" by (auto simp: commit_lookup split: if_splits)
  qed
  have inv0: "INV V ?HB {} {} V" using dead by (rule INV_init)
  from connectEach_ok[OF res inv0 subset_refl, where j="[]"] obtain V1 J where
    ce: "connectEach lib ord 0 ?txs V (Some []) = Inr (V1, Some J)"
    and jn: "J = [] \<longrightarrow> (\<forall>t \<in> set ?txs. \<not> IsCoinBaseTx lib t \<longrightarrow> TxIn t = [])"
    and inv1: "INV V ?HB ({} \<union> ?HB) ({} \<union> pending lib ?txs) V1"
    and rf: "refsF lib V ?HB {} ?txs"
    by blast
  have inv1': "INV V ?HB ?HB (pending lib ?txs) V1" using inv1 by simp
  have rfr: "refsF lib V ?HB (set (map txHash [c])) rest" using rf Cons by simp
  have rR: "refsR V ?HB (rev ?txs)"
    using refsF_to_refsR[OF rfr ncb] Cons by simp
  have revtx: "rev ?txs = rev rest @ [c]" using Cons by simp
  have pend: "pending lib ?txs = pendR (rev ?txs)"
    unfolding revtx pendR_snoc using cbc ncb Cons by (auto simp: pending_def)
  have jc: "J \<noteq> [] \<or> noInsR (rev ?txs)"
    unfolding revtx noInsR_snoc using jn ncb Cons by auto
  have d1: "set (map txHash (rev ?txs)) \<subseteq> ?HB" by simp
  from disconnectLoop_ok[OF jc inv1' d1, where C="{}" and b=block] rR obtain W' where
    dl: "disconnectLoop block J (rev ?txs) V1 = Inr W'"
    and inv2: "INV V ?HB ?HB (pending lib ?txs - pendR (rev ?txs)) W'"
    and cl: "\<forall>h \<in> {} \<union> set (map txHash (rev ?txs)). cleared W' h"
    by auto
  have inv2': "INV V ?HB ?HB {} W'" using inv2 pend by simp
  let ?V2 = "W'\<lparr>bestHash := blockHash block\<rparr>"
  have dt: "disconnectTransactions V1 block J = Inr ?V2"
    using dl by (simp add: disconnectTransactions_def)
  have "entries (commit ?V2) = entries (commit V)"
  proof (rule fmap_ext)
    fix h
    have same: "fmlookup (entries (commit ?V2)) h = fmlookup (entries (commit W')) h"
      by (simp add: commit_lookup)
    show "fmlookup (entries (commit ?V2)) h = fmlookup (entries (commit V)) h"
    proof (cases "h \<in> ?HB")
      case True
      then have "cleared W' h" using cl by auto
      then have "fmlookup (entries (commit W')) h = None" by (rule commit_cleared)
      moreover have "fmlookup (entries (commit V)) h = None"
        using gone True by auto
      ultimately show ?thesis using same by simp
    next
      case False
      then have "extRel V {} h (fmlookup (entries W') h)" using inv2' by (simp add: INV_def)
      then show ?thesis using same by (simp add: commit_extRel)
    qed
  qed
  then show ?thesis using ce dt by blast
qed

lemma view0_entry:
  "fmlookup (entries view0) h =
     (if h = 101 then
        Some (Some \<lparr>sparseOutputs = fmupd 0 \<lparr>scriptVersion = 0, pkScript = [1], amount = 50, spent = False\<rparr> fmempty,
                    txVersion = 1, order = 1, index = 0, isCoinBase = True, hasExpiry = False,
                    txType = 0, modified = True\<rparr>)
      else None)"
  by (simp add: view0_def T1_def nullIn_def lib0_def AddTxOuts_def LookupEntry_def
      NewUtxoViewpoint_def newUtxoEntry_def TxTypeRegular_def Let_def)

text \<open>
  Claim C4, as stated: for every view and every block whose inputs are resolvable in it,
  the round trip gives back the committed view. Three blocks on \<open>view0\<close>, which holds the
  live entry 101, each with resolvable inputs, show what else the round trip needs.
  \<open>blockDup\<close> has the single coinbase \<open>dupTx\<close>, whose hash is that of the entry 101:
  \<open>AddTxOuts\<close> takes the entry over, the disconnect empties it, and the entry that \<open>commit\<close>
  keeps in \<open>view0\<close> is gone. \<open>blockNoCoinbase\<close> starts with \<open>T2\<close>, which is no coinbase:
  the connect spends \<open>T1[0]\<close>, the disconnect takes transaction 0 for the coinbase and
  does not restore it, and the entry 101 is gone as well. \<open>blockTwoCoinbases\<close> has a
  second coinbase after \<open>T2\<close>: the disconnect looks for the journal record of its input,
  gets the zero record and fails.
\<close>

theorem round_trip_needs_free_hashes_and_coinbase_first:
  "(coinbaseFirst lib0 (Transactions blockDup) \<and>
    inputsResolvable lib0 2 0 (Transactions blockDup) view0 \<and>
    \<not> hashesFree view0 (Transactions blockDup) \<and>
    (case roundTrip lib0 2 view0 blockDup of
       Inl err \<Rightarrow> False
     | Inr v \<Rightarrow> fmlookup (entries v) 101 = None \<and> fmlookup (entries (commit view0)) 101 \<noteq> None)) \<and>
   (hashesFree view0 (Transactions blockNoCoinbase) \<and>
    inputsResolvable lib0 2 0 (Transactions blockNoCoinbase) view0 \<and>
    \<not> coinbaseFirst lib0 (Transactions blockNoCoinbase) \<and>
    (case roundTrip lib0 2 view0 blockNoCoinbase of
       Inl err \<Rightarrow> False
     | Inr v \<Rightarrow> fmlookup (entries v) 101 = None \<and> fmlookup (entries (commit view0)) 101 \<noteq> None)) \<and>
   (hashesFree view0 (Transactions blockTwoCoinbases) \<and>
    inputsResolvable lib0 2 0 (Transactions blockTwoCoinbases) view0 \<and>
    \<not> coinbaseFirst lib0 (Transactions blockTwoCoinbases) \<and>
    roundTrip lib0 2 view0 blockTwoCoinbases = Inl AssertError)"
proof -
  have c101: "fmlookup (entries (commit view0)) 101 \<noteq> None"
    by (simp add: commit_lookup view0_entry IsFullySpent_def fmpred_iff)
  have free: "fmlookup (entries (commit view0)) h = None" if "h \<noteq> 101" for h
    using that by (simp add: commit_lookup view0_entry)
  have a: "coinbaseFirst lib0 (Transactions blockDup) \<and>
    inputsResolvable lib0 2 0 (Transactions blockDup) view0 \<and>
    \<not> hashesFree view0 (Transactions blockDup) \<and>
    (case roundTrip lib0 2 view0 blockDup of
       Inl err \<Rightarrow> False
     | Inr v \<Rightarrow> fmlookup (entries v) 101 = None \<and> fmlookup (entries (commit view0)) 101 \<noteq> None)"
    using c101
    by (simp add: roundTrip_def blockDup_def dupTx_def nullIn_def lib0_def coinbaseFirst_def
        hashesFree_def connectTransaction_def AddTxOuts_def LookupEntry_def view0_entry
        newUtxoEntry_def disconnectTransactions_def commit_lookup IsFullySpent_def fmpred_iff
        Let_def)
  have b: "hashesFree view0 (Transactions blockNoCoinbase) \<and>
    inputsResolvable lib0 2 0 (Transactions blockNoCoinbase) view0 \<and>
    \<not> coinbaseFirst lib0 (Transactions blockNoCoinbase) \<and>
    (case roundTrip lib0 2 view0 blockNoCoinbase of
       Inl err \<Rightarrow> False
     | Inr v \<Rightarrow> fmlookup (entries v) 101 = None \<and> fmlookup (entries (commit view0)) 101 \<noteq> None)"
    using c101
    by (simp add: roundTrip_def blockNoCoinbase_def T2_def lib0_def coinbaseFirst_def
        hashesFree_def free spendable_def spendInput_def SpendOutput_def
        connectTransaction_def AddTxOuts_def LookupEntry_def view0_entry
        newUtxoEntry_def disconnectTransactions_def commit_lookup IsFullySpent_def fmpred_iff
        Let_def)
  have c: "hashesFree view0 (Transactions blockTwoCoinbases) \<and>
    inputsResolvable lib0 2 0 (Transactions blockTwoCoinbases) view0 \<and>
    \<not> coinbaseFirst lib0 (Transactions blockTwoCoinbases) \<and>
    roundTrip lib0 2 view0 blockTwoCoinbases = Inl AssertError"
    by (simp add: roundTrip_def blockTwoCoinbases_def CB2_def T2_def CB3_def nullIn_def lib0_def
        coinbaseFirst_def hashesFree_def free spendable_def spendInput_def SpendOutput_def
        connectTransaction_def AddTxOuts_def LookupEntry_def view0_entry
        newUtxoEntry_def disconnectTransactions_def GetSpentTxOut_def zeroSpentTxOut_def
        TxTypeRegular_def Let_def)
  show ?thesis using a b c by blast
qed

text \<open>
  Claim C4, amended: for every view and every block whose first transaction is its only
  coinbase, none of whose transaction hashes has an entry that \<open>commit\<close> would keep in the
  view, and whose inputs are resolvable in the view, connecting the transactions in order
  with a journal, disconnecting the block with that journal and committing succeeds and
  gives a view whose entries are those of the committed original view.
\<close>

theorem connect_disconnect_round_trip:
  assumes "coinbaseFirst lib (Transactions block)"
    and "hashesFree V (Transactions block)"
    and "inputsResolvable lib ord 0 (Transactions block) V"
  shows "\<exists>V2. roundTrip lib ord V block = Inr V2 \<and> entries V2 = entries (commit V)"
proof -
  from round_trip_steps[OF assms] obtain V1 J V2 where
    "connectEach lib ord 0 (Transactions block) V (Some []) = Inr (V1, Some J)"
    "disconnectTransactions V1 block J = Inr V2"
    "entries (commit V2) = entries (commit V)"
    by blast
  then show ?thesis by (simp add: roundTrip_def)
qed

theorem connect_disconnect_round_trip_witness:
  "coinbaseFirst lib0 (Transactions block2) \<and> hashesFree view0 (Transactions block2) \<and>
   inputsResolvable lib0 2 0 (Transactions block2) view0 \<and>
   (\<exists>V2. roundTrip lib0 2 view0 block2 = Inr V2 \<and> entries V2 = entries (commit view0))"
proof -
  have h1: "coinbaseFirst lib0 (Transactions block2)"
    by (simp add: coinbaseFirst_def block2_def CB2_def T2_def nullIn_def lib0_def)
  have h2: "hashesFree view0 (Transactions block2)"
    by (simp add: hashesFree_def block2_def CB2_def T2_def commit_lookup view0_entry)
  have h3: "inputsResolvable lib0 2 0 (Transactions block2) view0"
    by (simp add: block2_def CB2_def T2_def nullIn_def lib0_def spendable_def spendInput_def
        AddTxOuts_def LookupEntry_def view0_entry newUtxoEntry_def Let_def)
  show ?thesis
    using connect_disconnect_round_trip[OF h1 h2 h3] h1 h2 h3 by simp
qed

section \<open>Verified properties of the DAG engine\<close>

subsection \<open>The linear chain\<close>

text \<open>
  Claim C5, as stated: after genesis, \<open>B1\<close> on genesis and \<open>B2\<close> on \<open>B1\<close>, with bound 3, the
  engine has tips \<open>{B2}\<close>, common order \<open>[G]\<close>, temp order \<open>[B1, B2]\<close> and hourglass \<open>{B2}\<close>.
  The three insertions succeed, and the state they reach is not that one.
\<close>

theorem linear_chain_hourglass_is_not_tip:
  "\<not> (case addAll 10 (newBlockDAG 0 3) [G, B1, B2] of
        Inl e \<Rightarrow> False
      | Inr bd \<Rightarrow>
          tips bd = Some [3] \<and> commonOrder bd = [Some 1] \<and> tempOrder bd = [2, 3] \<and>
          hourglassBlocks bd = Some [3])"
  by code_simp

text \<open>
  Claim C5, amended: the three insertions succeed and give tips \<open>{B2}\<close>, common order
  \<open>[G]\<close>, temp order \<open>[B1, B2]\<close> and hourglass \<open>{G, B1}\<close>: the walk of \<open>updateHourglass\<close>
  steps from the tip to its parent before it tests a candidate, and keeps the hourglass
  blocks found earlier.
\<close>

theorem linear_chain_state:
  "(case addAll 10 (newBlockDAG 0 3) [G, B1, B2] of
      Inl e \<Rightarrow> False
    | Inr bd \<Rightarrow>
        tips bd = Some [3] \<and> commonOrder bd = [Some 1] \<and> tempOrder bd = [2, 3] \<and>
        hourglassBlocks bd = Some [1, 2] \<and> totalBlocks bd = 3)"
  by code_simp

subsection \<open>A late child of genesis\<close>

text \<open>
  Claim C7. After every successful \<open>AddBlock\<close> the blocks of the common order and of the
  temp order should add up to the block count. Inserting \<open>forkLate\<close> succeeds; block 5, a
  child of genesis that arrives after the common prefix has advanced to block 2, resets
  the last common blocks to genesis and leaves the common order at \<open>[1, 2]\<close>, so that
  block 2 is counted in both orders: 2 + 4 against 5 blocks.
\<close>

theorem late_genesis_child_breaks_order_count:
  "(case addAll 10 (newBlockDAG 0 3) forkLate of
      Inl e \<Rightarrow> False
    | Inr bd \<Rightarrow>
        GetCommonOrderNum bd = 2 \<and> length (tempOrder bd) = 4 \<and> totalBlocks bd = 5 \<and>
        GetCommonOrderNum bd + length (tempOrder bd) \<noteq> totalBlocks bd)"
  by code_simp

text \<open>
  Claim C1. The same blocks inserted in two parent-before-child orders should end with the
  same common order. \<open>forkLate\<close> and \<open>forkEarly\<close> hold the same five blocks; both insertions
  succeed, with the same tips and the same temp order, and the common orders differ.
\<close>

theorem insertion_order_changes_common_order:
  "(case (addAll 10 (newBlockDAG 0 3) forkLate, addAll 10 (newBlockDAG 0 3) forkEarly) of
      (Inr bd, Inr bd') \<Rightarrow>
        set forkLate = set forkEarly \<and> tips bd = tips bd' \<and> tempOrder bd = tempOrder bd' \<and>
        commonOrder bd = [Some 1, Some 2] \<and> commonOrder bd' = [Some 1]
    | _ \<Rightarrow> False)"
  by code_simp

subsection \<open>A last common block outside both orders\<close>

text \<open>
  Claim C6. Every parent of a block of positive order height should precede it in the
  total order. Inserting \<open>crossed\<close> succeeds. With the tips 8 and 9, \<open>calLastCommonBlocks\<close>
  returns 2, 3, 4 and 5, although 5 is a child of 3: the walk that extends the common order
  excludes block 5 as part of the future of the new last common blocks, and the walk that
  builds the temp order leaves it out as a last common block. Block 6, of order height 4,
  has the single parent 5, which has no position in the total order.
\<close>

theorem parent_missing_from_total_order:
  "(case addAll 12 (newBlockDAG 0 3) crossed of
      Inl e \<Rightarrow> False
    | Inr bd \<Rightarrow>
        lastCommonBlocks bd = [2, 3, 4, 5] \<and> totalOrder bd = [1, 2, 3, 4, 6, 7, 8, 9] \<and>
        map_option parents (GetBlock bd 6) = Some [5] \<and>
        map_option height (GetBlock bd 6) = Some 4 \<and>
        6 \<in> set (totalOrder bd) \<and> 5 \<notin> set (totalOrder bd))"
  by code_simp

subsection \<open>The past-set count\<close>

text \<open>Lookups, block sets and the parent relation of a well-formed index.\<close>

lemma GetBlock_dom: "GetBlock bd h = Some n \<Longrightarrow> h \<in> domS bd"
  by (auto simp: GetBlock_def domS_def dest: map_of_SomeD intro: rev_image_eqI)

lemma dom_GetBlock: "h \<in> domS bd \<Longrightarrow> \<exists>n. GetBlock bd h = Some n"
  unfolding GetBlock_def domS_def
  by (metis domD dom_map_of_conv_image_fst)

lemma GetBlock_mem: "distinct (map fst (nodes bd)) \<Longrightarrow> (h, n) \<in> set (nodes bd) \<Longrightarrow> GetBlock bd h = Some n"
  by (simp add: GetBlock_def)

lemma parentRel_iff: "distinct (map fst (nodes bd)) \<Longrightarrow> ((p, c) \<in> parentRel bd) = (p \<in> parS bd c)"
proof
  assume d: "distinct (map fst (nodes bd))" and "(p, c) \<in> parentRel bd"
  then obtain n where "(c, n) \<in> set (nodes bd)" "p \<in> set (parents n)"
    by (auto simp: parentRel_def)
  then show "p \<in> parS bd c" using d by (simp add: parS_def GetBlock_mem)
next
  assume "p \<in> parS bd c"
  then obtain n where "GetBlock bd c = Some n" "p \<in> set (parents n)"
    by (auto simp: parS_def split: option.splits)
  then have "(c, n) \<in> set (nodes bd)" by (auto simp: GetBlock_def dest: map_of_SomeD)
  then show "(p, c) \<in> parentRel bd" using \<open>p \<in> set (parents n)\<close>
    by (force simp: parentRel_def)
qed

lemma pastOf_iff: "(x \<in> pastOf bd h) = ((x, h) \<in> (parentRel bd)\<^sup>+)"
  by (force simp: pastOf_def)

lemma futureOf_iff: "(y \<in> futureOf bd h) = ((h, y) \<in> (parentRel bd)\<^sup>+)"
  by (force simp: futureOf_def)

lemma set_Add [simp]: "set (Add s h) = insert h (set s)"
  by (simp add: Add_def set_insort_key insert_absorb)

lemma distinct_Add: "distinct s \<Longrightarrow> distinct (Add s h)"
  by (simp add: Add_def distinct_insort)

lemma set_Exclude [simp]: "set (Exclude s t) = set s - set t"
  by (auto simp: Exclude_def)

lemma distinct_Exclude: "distinct s \<Longrightarrow> distinct (Exclude s t)"
  by (simp add: Exclude_def)

lemma wf_distinct: "wfDag bd \<Longrightarrow> distinct (map fst (nodes bd))"
  by (simp add: wfDag_def)

lemma wf_children_dom: "wfDag bd \<Longrightarrow> GetBlock bd h = Some n \<Longrightarrow> set (children n) \<subseteq> domS bd"
  unfolding wfDag_def GetBlock_def by (force dest: map_of_SomeD)

lemma wf_parents_dom: "wfDag bd \<Longrightarrow> GetBlock bd h = Some n \<Longrightarrow> set (parents n) \<subseteq> domS bd"
  unfolding wfDag_def GetBlock_def by (force dest: map_of_SomeD)

lemma wf_bhash: "wfDag bd \<Longrightarrow> GetBlock bd h = Some n \<Longrightarrow> bhash n = h"
  unfolding wfDag_def GetBlock_def by (force dest: map_of_SomeD)

lemma wf_chi_par: "wfDag bd \<Longrightarrow> p \<in> domS bd \<Longrightarrow> c \<in> domS bd \<Longrightarrow> (c \<in> chiS bd p) = (p \<in> parS bd c)"
  by (simp add: wfDag_def)

lemma chiS_dom: "wfDag bd \<Longrightarrow> c \<in> chiS bd p \<Longrightarrow> c \<in> domS bd \<and> p \<in> domS bd"
  by (auto simp: chiS_def split: option.splits dest: wf_children_dom GetBlock_dom)

lemma parS_dom: "wfDag bd \<Longrightarrow> p \<in> parS bd c \<Longrightarrow> c \<in> domS bd \<and> p \<in> domS bd"
  by (auto simp: parS_def split: option.splits dest: wf_parents_dom GetBlock_dom)

lemma chi_rel: "wfDag bd \<Longrightarrow> (c \<in> chiS bd p) = ((p, c) \<in> parentRel bd)"
  using chiS_dom parS_dom wf_chi_par parentRel_iff wf_distinct by metis

lemma par_rel: "wfDag bd \<Longrightarrow> (p \<in> parS bd c) = ((p, c) \<in> parentRel bd)"
  using parentRel_iff wf_distinct by metis

lemma finite_domS [simp]: "finite (domS bd)"
  by (simp add: domS_def)

text \<open>The depth-first collection of the future.\<close>

lemma GetFutureSet_loop:
  assumes wf: "wfDag bd"
    and IH: "\<And>fs b hb. GetBlock bd hb = Some b \<Longrightarrow> set fs \<subseteq> domS bd \<Longrightarrow>
              card (domS bd) - card (set fs) < n \<Longrightarrow>
              \<exists>fs'. GetFutureSet n bd fs b = Some fs' \<and> set fs \<subseteq> set fs' \<and> set fs' \<subseteq> domS bd \<and>
                 set (children b) \<subseteq> set fs' \<and> (\<forall>y \<in> set fs' - set fs. chiS bd y \<subseteq> set fs') \<and>
                 set fs' \<subseteq> set fs \<union> futureOf bd hb \<and> (distinct fs \<longrightarrow> distinct fs')"
  shows "set cs \<subseteq> chiS bd hb \<Longrightarrow> set fs \<subseteq> set cur \<Longrightarrow> set cur \<subseteq> domS bd \<Longrightarrow>
         card (domS bd) - card (set fs) < Suc n \<Longrightarrow>
         (\<forall>y \<in> set cur - set fs. chiS bd y \<subseteq> set cur) \<Longrightarrow>
         set cur \<subseteq> set fs \<union> futureOf bd hb \<Longrightarrow>
         \<exists>fs'. forEach (\<lambda>k fs'. if Has fs' k then Some fs'
                       else (case GetBlock bd k of None \<Rightarrow> None
                             | Some c \<Rightarrow> GetFutureSet n bd (Add fs' k) c)) cs cur = Some fs' \<and>
            set cur \<subseteq> set fs' \<and> set fs' \<subseteq> domS bd \<and> set cs \<subseteq> set fs' \<and>
            (\<forall>y \<in> set fs' - set fs. chiS bd y \<subseteq> set fs') \<and>
            set fs' \<subseteq> set fs \<union> futureOf bd hb \<and> (distinct cur \<longrightarrow> distinct fs')"
proof (induction cs arbitrary: cur)
  case Nil
  then show ?case by simp
next
  case (Cons k cs)
  have kchi: "k \<in> chiS bd hb" using Cons.prems(1) by simp
  have kdom: "k \<in> domS bd" using chiS_dom[OF wf kchi] by simp
  have kfut: "k \<in> futureOf bd hb" using kchi chi_rel[OF wf] by (auto simp: futureOf_iff)
  show ?case
  proof (cases "k \<in> set cur")
    case True
    from Cons.IH[of cur] Cons.prems True show ?thesis by (auto simp: Has_def)
  next
    case False
    obtain c where c: "GetBlock bd k = Some c" using dom_GetBlock[OF kdom] by blast
    have fin: "finite (set cur)" by simp
    have sub: "set cur \<subset> domS bd" using False kdom Cons.prems(3) by auto
    have "card (set cur) < card (domS bd)" using psubset_card_mono[OF finite_domS sub] .
    moreover have "card (set fs) \<le> card (set cur)" using Cons.prems(2) by (simp add: card_mono)
    ultimately have fuel: "card (domS bd) - card (set (Add cur k)) < n"
      using Cons.prems(4) False by simp
    have "set (Add cur k) \<subseteq> domS bd" using kdom Cons.prems(3) by simp
    from IH[OF c this fuel] obtain f1 where
      f1: "GetFutureSet n bd (Add cur k) c = Some f1" "set (Add cur k) \<subseteq> set f1" "set f1 \<subseteq> domS bd"
        "set (children c) \<subseteq> set f1" "\<forall>y \<in> set f1 - set (Add cur k). chiS bd y \<subseteq> set f1"
        "set f1 \<subseteq> set (Add cur k) \<union> futureOf bd k" "distinct (Add cur k) \<longrightarrow> distinct f1"
      by blast
    have chik: "chiS bd k \<subseteq> set f1" using f1(4) c by (simp add: chiS_def)
    have futk: "futureOf bd k \<subseteq> futureOf bd hb"
      using kfut by (auto simp: futureOf_iff)
    have p2: "set fs \<subseteq> set f1" using Cons.prems(2) f1(2) by auto
    have p5: "\<forall>y \<in> set f1 - set fs. chiS bd y \<subseteq> set f1"
    proof
      fix y assume y: "y \<in> set f1 - set fs"
      show "chiS bd y \<subseteq> set f1"
      proof (cases "y = k")
        case True then show ?thesis using chik by simp
      next
        case ny: False
        show ?thesis
        proof (cases "y \<in> set cur")
          case True
          then have "chiS bd y \<subseteq> set cur" using Cons.prems(5) y by auto
          then show ?thesis using f1(2) by auto
        next
          case False
          then show ?thesis using f1(5) y ny by auto
        qed
      qed
    qed
    have p6: "set f1 \<subseteq> set fs \<union> futureOf bd hb"
      using f1(6) Cons.prems(6) kfut futk by auto
    from Cons.IH[of f1, OF _ p2 f1(3) Cons.prems(4) p5 p6] Cons.prems(1)
    obtain f2 where f2: "forEach (\<lambda>k fs'. if Has fs' k then Some fs'
                       else (case GetBlock bd k of None \<Rightarrow> None
                             | Some c \<Rightarrow> GetFutureSet n bd (Add fs' k) c)) cs f1 = Some f2"
       "set f1 \<subseteq> set f2" "set f2 \<subseteq> domS bd" "set cs \<subseteq> set f2"
       "\<forall>y \<in> set f2 - set fs. chiS bd y \<subseteq> set f2"
       "set f2 \<subseteq> set fs \<union> futureOf bd hb" "distinct f1 \<longrightarrow> distinct f2"
      by auto
    have "distinct cur \<longrightarrow> distinct f2" using f1(7) f2(7) distinct_Add by blast
    then show ?thesis using f2 f1(1,2) c False by (auto simp: Has_def)
  qed
qed

lemma GetFutureSet_inv:
  assumes wf: "wfDag bd"
  shows "GetBlock bd hb = Some b \<Longrightarrow> set fs \<subseteq> domS bd \<Longrightarrow>
         card (domS bd) - card (set fs) < n \<Longrightarrow>
         \<exists>fs'. GetFutureSet n bd fs b = Some fs' \<and> set fs \<subseteq> set fs' \<and> set fs' \<subseteq> domS bd \<and>
            set (children b) \<subseteq> set fs' \<and> (\<forall>y \<in> set fs' - set fs. chiS bd y \<subseteq> set fs') \<and>
            set fs' \<subseteq> set fs \<union> futureOf bd hb \<and> (distinct fs \<longrightarrow> distinct fs')"
proof (induction n arbitrary: fs b hb)
  case 0
  then show ?case by simp
next
  case (Suc n)
  have "set (children b) \<subseteq> chiS bd hb" using Suc.prems(1) by (simp add: chiS_def)
  have ih: "\<exists>fs'. GetFutureSet n bd fs b = Some fs' \<and> set fs \<subseteq> set fs' \<and> set fs' \<subseteq> domS bd \<and>
                 set (children b) \<subseteq> set fs' \<and> (\<forall>y \<in> set fs' - set fs. chiS bd y \<subseteq> set fs') \<and>
                 set fs' \<subseteq> set fs \<union> futureOf bd hb \<and> (distinct fs \<longrightarrow> distinct fs')"
    if "GetBlock bd hb = Some b" "set fs \<subseteq> domS bd" "card (domS bd) - card (set fs) < n" for fs b hb
    using Suc.IH[OF that] .
  have "set fs \<subseteq> set fs" "\<forall>y \<in> set fs - set fs. chiS bd y \<subseteq> set fs"
    "set fs \<subseteq> set fs \<union> futureOf bd hb" by auto
  from GetFutureSet_loop[where cs = "children b" and hb = hb and fs = fs and cur = fs and n = n and bd = bd,
      OF wf ih \<open>set (children b) \<subseteq> chiS bd hb\<close> this(1) Suc.prems(2,3) this(2,3)]
  show ?case by auto
qed

lemma GetFutureSet_correct:
  assumes wf: "wfDag bd" and b: "GetBlock bd hb = Some b" and n: "card (domS bd) < n"
  shows "\<exists>F. GetFutureSet n bd NewBlockSet b = Some F \<and> set F = futureOf bd hb \<and> distinct F"
proof -
  from GetFutureSet_inv[OF wf b, of "[]" n] n obtain F where
    F: "GetFutureSet n bd [] b = Some F" "set F \<subseteq> domS bd" "set (children b) \<subseteq> set F"
      "\<forall>y \<in> set F. chiS bd y \<subseteq> set F" "set F \<subseteq> futureOf bd hb" "distinct F"
    by auto
  have "y \<in> set F" if "(hb, y) \<in> (parentRel bd)\<^sup>+" for y
    using that
  proof (induction rule: trancl_induct)
    case (base y)
    then have "y \<in> chiS bd hb" using chi_rel[OF wf] by simp
    then show ?case using F(3) b by (auto simp: chiS_def)
  next
    case (step y z)
    then have "z \<in> chiS bd y" using chi_rel[OF wf] by simp
    then show ?case using F(4) step by auto
  qed
  then have "futureOf bd hb \<subseteq> set F" by (auto simp: futureOf_iff)
  then show ?thesis using F by (auto simp: NewBlockSet_def)
qed

text \<open>The parent relation of a well-formed index has no cycle.\<close>

lemma rank_trancl:
  assumes "\<forall>e \<in> R. (r (fst e) :: nat) < r (snd e)" and "(a, b) \<in> R\<^sup>+"
  shows "r a < r b"
  using assms(2)
proof (induction rule: trancl_induct)
  case (base y) then show ?case using assms(1) by force
next
  case (step y z) then show ?case using assms(1) by force
qed

lemma wf_rank:
  assumes "wfDag bd"
  shows "\<exists>r. (\<forall>e \<in> parentRel bd. (r (fst e) :: nat) < r (snd e)) \<and>
             (\<forall>h \<in> domS bd. r h < length (nodes bd))"
  using assms unfolding wfDag_def by blast

lemma wf_irrefl: "wfDag bd \<Longrightarrow> (a, a) \<notin> (parentRel bd)\<^sup>+"
proof
  assume wf: "wfDag bd" and a: "(a, a) \<in> (parentRel bd)\<^sup>+"
  obtain r where "\<forall>e \<in> parentRel bd. (r (fst e) :: nat) < r (snd e)"
    using wf_rank[OF wf] by blast
  from rank_trancl[OF this a] show False by simp
qed

lemma wf_asym: "wfDag bd \<Longrightarrow> (a, b) \<in> (parentRel bd)\<^sup>+ \<Longrightarrow> (b, a) \<notin> (parentRel bd)\<^sup>+"
  by (meson trancl_trans wf_irrefl)

lemma in_anticone:
  "(x \<in> anticoneOf bd hb) =
     (x \<in> domS bd \<and> x \<noteq> hb \<and> (hb, x) \<notin> (parentRel bd)\<^sup>+ \<and> (x, hb) \<notin> (parentRel bd)\<^sup>+)"
  by (auto simp: anticoneOf_def futureOf_iff pastOf_iff)

text \<open>The walk \<open>recAnticone\<close> keeps its invariant, and returns when the budget exceeds the rank.\<close>

lemma recAnticone_loop:
  assumes IH: "\<And>A0 K0 T0 E S h. aInv bd hb (set A0) K0 T0 E S \<Longrightarrow> h \<in> domS bd \<Longrightarrow> r h < n \<Longrightarrow>
      \<exists>A1. recAnticone n bd b fut A0 h = Some A1 \<and> aPost bd hb A0 K0 T0 E S h A1"
  shows "aInv bd hb (set A) K T (E \<union> set ks) S \<Longrightarrow> set ks \<subseteq> domS bd \<Longrightarrow> \<forall>k\<in>set ks. r k < n \<Longrightarrow>
     \<exists>A' K' T'. forEach (\<lambda>k a. recAnticone n bd b fut a k) ks A = Some A' \<and>
        aInv bd hb (set A') K' T' E S \<and> set A \<subseteq> set A' \<and> K \<union> set ks \<subseteq> K' \<and> T \<subseteq> T' \<and>
        (distinct A \<longrightarrow> distinct A')"
proof (induction ks arbitrary: A K T)
  case Nil
  then show ?case by auto
next
  case (Cons k ks)
  have "k \<in> domS bd" "r k < n" using Cons.prems by auto
  from IH[OF Cons.prems(1) this] obtain A1 K1 T1 where
    r1: "recAnticone n bd b fut A k = Some A1"
    and i1: "aInv bd hb (set A1) K1 T1 (E \<union> set (k # ks)) S"
    and m1: "set A \<subseteq> set A1" "K \<subseteq> K1" "k \<in> K1" "T \<subseteq> T1"
    and s1: "k \<in> anticoneOf bd hb \<longrightarrow>
           k \<in> set A1 \<or> (\<exists>c\<in>chiS bd k. c \<in> anticoneOf bd hb \<and> c \<notin> set A1)"
    and d1: "distinct A \<longrightarrow> distinct A1"
    unfolding aPost_def by blast
  have i2: "aInv bd hb (set A1) K1 T1 (E \<union> set ks) S"
    using i1 s1 unfolding aInv_def by (simp (no_asm_use)) blast
  have "set ks \<subseteq> domS bd" "\<forall>k\<in>set ks. r k < n" using Cons.prems by auto
  from Cons.IH[OF i2 this] obtain A' K' T' where
    "forEach (\<lambda>k a. recAnticone n bd b fut a k) ks A1 = Some A'"
    "aInv bd hb (set A') K' T' E S" "set A1 \<subseteq> set A'" "K1 \<union> set ks \<subseteq> K'" "T1 \<subseteq> T'"
    "distinct A1 \<longrightarrow> distinct A'"
    by blast
  then have "forEach (\<lambda>k a. recAnticone n bd b fut a k) (k # ks) A = Some A' \<and>
        aInv bd hb (set A') K' T' E S \<and> set A \<subseteq> set A' \<and> K \<union> set (k # ks) \<subseteq> K' \<and> T \<subseteq> T' \<and>
        (distinct A \<longrightarrow> distinct A')"
    using r1 m1 d1 by auto
  then show ?case by blast
qed

lemma need_iff:
  "(if children node = [] then True else isVirtualTip b fut A (children node)) =
     (\<forall>c \<in> set (children node). c \<noteq> bhash b \<and> (c \<in> set fut \<or> c \<in> set A))"
  by (auto simp: isVirtualTip_def Has_def list_all_iff)

lemma recAnticone_inv:
  assumes wf: "wfDag bd" and b: "GetBlock bd hb = Some b"
    and r: "\<forall>e \<in> parentRel bd. (r (fst e) :: nat) < r (snd e)"
    and fut: "set fut = futureOf bd hb"
  shows "aInv bd hb (set A0) K0 T0 E S \<Longrightarrow> h \<in> domS bd \<Longrightarrow> r h < n \<Longrightarrow>
      \<exists>A1. recAnticone n bd b fut A0 h = Some A1 \<and> aPost bd hb A0 K0 T0 E S h A1"
proof (induction n arbitrary: A0 K0 T0 E S h)
  case 0
  then show ?case by simp
next
  case (Suc n)
  note inv = Suc.prems(1)
  have bh: "bhash b = hb" using wf_bhash[OF wf b] .
  let ?R = "parentRel bd"
  let ?AC = "anticoneOf bd hb"
  show ?case
  proof (cases "h = hb")
    case True
    have "aInv bd hb (set A0) (insert hb K0) T0 E S"
      using inv wf_irrefl[OF wf] unfolding aInv_def by (auto simp: in_anticone futureOf_iff)
    then have "aInv bd hb (set A0) (insert hb K0) T0 E S \<and> h \<in> insert hb K0 \<and>
        h \<notin> anticoneOf bd hb \<and> h \<notin> futureOf bd hb"
      using True wf_irrefl[OF wf] by (auto simp: in_anticone futureOf_iff)
    then have "aPost bd hb A0 K0 T0 E S h A0"
      unfolding aPost_def by blast
    then show ?thesis using True bh by simp
  next
    case False
    obtain node where node: "GetBlock bd h = Some node" using dom_GetBlock[OF Suc.prems(2)] by blast
    have chi: "chiS bd h = set (children node)" using node by (simp add: chiS_def)
    have par: "parS bd h = set (parents node)" using node by (simp add: parS_def)
    let ?need = "\<forall>c \<in> chiS bd h. c \<noteq> hb \<and> (c \<in> futureOf bd hb \<or> c \<in> set A0)"
    have needeq: "(if children node = [] then True else isVirtualTip b fut A0 (children node)) = ?need"
      unfolding need_iff chi bh fut ..
    show ?thesis
    proof (cases ?need)
      case nf: False
      then obtain c where c: "c \<in> chiS bd h" "c = hb \<or> (c \<notin> futureOf bd hb \<and> c \<notin> set A0)" by blast
      have hc: "(h, c) \<in> ?R" using c(1) chi_rel[OF wf] by simp
      have cdom: "c \<in> domS bd" using chiS_dom[OF wf c(1)] by simp
      have wit: "\<exists>c\<in>chiS bd h. c \<in> ?AC \<and> c \<notin> set A0" if hac: "h \<in> ?AC"
      proof -
        have "c \<noteq> hb" using hac hc by (auto simp: in_anticone)
        moreover have "(c, hb) \<notin> ?R\<^sup>+" using hac hc by (auto simp: in_anticone dest: trancl_into_trancl2)
        ultimately have "c \<in> ?AC \<and> c \<notin> set A0" using c(2) cdom by (auto simp: in_anticone futureOf_iff)
        then show ?thesis using c(1) by blast
      qed
      have nofut: "h \<notin> futureOf bd hb"
      proof
        assume hf: "h \<in> futureOf bd hb"
        then have "(hb, c) \<in> ?R\<^sup>+" using hc by (auto simp: futureOf_iff)
        then show False using c(2) wf_irrefl[OF wf] by (auto simp: futureOf_iff)
      qed
      have "aInv bd hb (set A0) (insert h K0) T0 E S"
        using inv wit nofut unfolding aInv_def by (simp (no_asm_use)) blast
      then have "aPost bd hb A0 K0 T0 E S h A0"
        unfolding aPost_def using wit nofut by blast
      then show ?thesis using False bh node needeq nf by simp
    next
      case nt: True
      have A0sub: "set A0 \<subseteq> ?AC" using inv by (simp add: aInv_def)
      have nopast: "(h, hb) \<notin> ?R\<^sup>+"
      proof
        assume "(h, hb) \<in> ?R\<^sup>+"
        then obtain c where c: "(h, c) \<in> ?R" "(c, hb) \<in> ?R\<^sup>*" by (meson tranclD)
        then have cc: "c \<in> chiS bd h" using chi_rel[OF wf] by simp
        then have "c \<noteq> hb" "c \<in> futureOf bd hb \<or> c \<in> set A0" using nt by auto
        moreover have "(c, hb) \<in> ?R\<^sup>+" using c(2) \<open>c \<noteq> hb\<close> by (meson rtranclD)
        ultimately show False using A0sub wf_asym[OF wf] by (auto simp: in_anticone futureOf_iff)
      qed
      have hAC: "h \<notin> futureOf bd hb \<Longrightarrow> h \<in> ?AC"
        using False nopast Suc.prems(2) by (auto simp: in_anticone futureOf_iff)
      define A0' where "A0' = (if \<not> Has fut h then Add A0 h else A0)"
      have sA0': "set A0' = (if h \<notin> futureOf bd hb then insert h (set A0) else set A0)"
        by (simp add: A0'_def Has_def fut)
      have dA0': "distinct A0 \<longrightarrow> distinct A0'" by (simp add: A0'_def distinct_Add)
      have bk: "\<And>k. h \<in> chiS bd k \<Longrightarrow> k \<in> parS bd h"
        using chi_rel[OF wf] par_rel[OF wf] by simp
      have inv1: "aInv bd hb (set A0') (insert h K0) T0 (E \<union> set (parents node)) (insert h S)"
        unfolding aInv_def
      proof (intro conjI)
        show "set A0' \<subseteq> ?AC" using A0sub hAC by (auto simp: sA0')
        show "\<forall>k\<in>insert h K0. k \<in> ?AC \<longrightarrow>
            k \<in> set A0' \<or> k \<in> E \<union> set (parents node) \<or> (\<exists>c\<in>chiS bd k. c \<in> ?AC \<and> c \<notin> set A0')"
        proof (intro ballI impI)
          fix k assume k: "k \<in> insert h K0" "k \<in> ?AC"
          show "k \<in> set A0' \<or> k \<in> E \<union> set (parents node) \<or> (\<exists>c\<in>chiS bd k. c \<in> ?AC \<and> c \<notin> set A0')"
          proof (cases "k = h")
            case True
            then show ?thesis using k(2) by (auto simp: sA0' in_anticone futureOf_iff)
          next
            case kh: False
            then have "k \<in> K0" using k(1) by simp
            then have "k \<in> set A0 \<or> k \<in> E \<or> (\<exists>c\<in>chiS bd k. c \<in> ?AC \<and> c \<notin> set A0)"
              using inv k(2) unfolding aInv_def by blast
            then show ?thesis
            proof (elim disjE bexE conjE)
              fix c assume c: "c \<in> chiS bd k" "c \<in> ?AC" "c \<notin> set A0"
              show ?thesis
              proof (cases "c = h")
                case True
                then have "k \<in> set (parents node)" using bk c(1) par by simp
                then show ?thesis by simp
              next
                case False
                then have "c \<notin> set A0'" using c(3) by (simp add: sA0')
                then show ?thesis using c by blast
              qed
            qed (auto simp: sA0')
          qed
        qed
        show "\<forall>x\<in>T0. parS bd x \<subseteq> insert h K0" using inv unfolding aInv_def by blast
        show "set A0' \<subseteq> T0 \<union> insert h S" using inv unfolding aInv_def by (auto simp: sA0')
        show "\<forall>k\<in>insert h K0. k \<in> futureOf bd hb \<longrightarrow> k \<in> T0 \<union> insert h S"
          using inv unfolding aInv_def by auto
      qed
      have pdom: "set (parents node) \<subseteq> domS bd" using wf_parents_dom[OF wf node] .
      have prank: "\<forall>k\<in>set (parents node). r k < n"
      proof
        fix k assume "k \<in> set (parents node)"
        then have "k \<in> parS bd h" using par by simp
        then have "(k, h) \<in> ?R" using par_rel[OF wf] by simp
        then have "r k < r h" using r by force
        then show "r k < n" using Suc.prems(3) by simp
      qed
      have ih: "\<exists>A1. recAnticone n bd b fut A0 h = Some A1 \<and> aPost bd hb A0 K0 T0 E S h A1"
        if "aInv bd hb (set A0) K0 T0 E S" "h \<in> domS bd" "r h < n" for A0 K0 T0 E S h
        using Suc.IH[OF that] .
      from recAnticone_loop[where bd = bd and hb = hb and r = r and n = n and b = b and fut = fut,
          OF ih inv1 pdom prank]
      obtain A' K' T' where
        l: "forEach (\<lambda>k a. recAnticone n bd b fut a k) (parents node) A0' = Some A'"
          "aInv bd hb (set A') K' T' E (insert h S)" "set A0' \<subseteq> set A'"
          "insert h K0 \<union> set (parents node) \<subseteq> K'" "T0 \<subseteq> T'" "distinct A0' \<longrightarrow> distinct A'"
        by blast
      have inv2: "aInv bd hb (set A') K' (insert h T') E S"
        using l(2,4) par unfolding aInv_def by (simp (no_asm_use)) blast
      have "set A0 \<subseteq> set A'" "K0 \<subseteq> K'" "h \<in> K'" "T0 \<subseteq> insert h T'"
        "h \<in> anticoneOf bd hb \<longrightarrow> h \<in> set A'" "distinct A0 \<longrightarrow> distinct A'"
        using l(3,4,5,6) dA0' by (auto simp: sA0' in_anticone futureOf_iff split: if_splits)
      with inv2 have "aPost bd hb A0 K0 T0 E S h A'"
        unfolding aPost_def by blast
      moreover have "recAnticone (Suc n) bd b fut A0 h = Some A'"
        using False bh node needeq nt l(1) by (simp add: A0'_def)
      ultimately show ?thesis by blast
    qed
  qed
qed

text \<open>After the walk from every tip, each block of the anticone has been collected.\<close>

lemma anticone_complete:
  assumes wf: "wfDag bd"
    and r: "\<forall>e \<in> parentRel bd. (r (fst e) :: nat) < r (snd e)"
    and rb: "\<forall>h \<in> domS bd. r h < N"
    and inv: "aInv bd hb A K T {} {}"
    and tipsK: "{h \<in> domS bd. chiS bd h = {}} \<subseteq> K"
  shows "x \<in> domS bd \<Longrightarrow> x \<in> anticoneOf bd hb \<or> x \<in> futureOf bd hb \<Longrightarrow>
     x \<in> K \<and> (x \<in> futureOf bd hb \<longrightarrow> x \<in> T) \<and> (x \<in> anticoneOf bd hb \<longrightarrow> x \<in> A)"
proof (induction "N - r x" arbitrary: x rule: less_induct)
  case less
  let ?R = "parentRel bd"
  let ?AC = "anticoneOf bd hb"
  let ?F = "futureOf bd hb"
  have ch: "c \<in> K \<and> c \<in> T \<and> (c \<in> ?AC \<longrightarrow> c \<in> A) \<and> x \<in> parS bd c" if c: "c \<in> chiS bd x" for c
  proof -
    have xc: "(x, c) \<in> ?R" using c chi_rel[OF wf] by simp
    have cdom: "c \<in> domS bd" using chiS_dom[OF wf c] by simp
    have "r x < r c" using r xc by force
    moreover have "r c < N" using rb cdom by simp
    ultimately have m: "N - r c < N - r x" by simp
    have cl: "c \<in> ?AC \<or> c \<in> ?F"
    proof (cases "x \<in> ?F")
      case True
      then have "(hb, c) \<in> ?R\<^sup>+" using xc by (auto simp: futureOf_iff)
      then show ?thesis by (simp add: futureOf_iff)
    next
      case False
      then have xa: "x \<in> ?AC" using less.prems by simp
      have "c \<noteq> hb" using xa xc by (auto simp: in_anticone)
      moreover have "(c, hb) \<notin> ?R\<^sup>+" using xa xc by (auto simp: in_anticone dest: trancl_into_trancl2)
      ultimately show ?thesis using cdom by (auto simp: in_anticone futureOf_iff)
    qed
    from less.hyps[OF m cdom cl] have ih: "c \<in> K" "c \<in> ?F \<longrightarrow> c \<in> T" "c \<in> ?AC \<longrightarrow> c \<in> A" by auto
    have "c \<in> T" using ih cl inv unfolding aInv_def by auto
    moreover have "x \<in> parS bd c" using xc par_rel[OF wf] by simp
    ultimately show ?thesis using ih by simp
  qed
  have xK: "x \<in> K"
  proof (cases "chiS bd x = {}")
    case True
    then show ?thesis using tipsK less.prems(1) by auto
  next
    case False
    then obtain c where c: "c \<in> chiS bd x" by auto
    from ch[OF c] have "c \<in> T" "x \<in> parS bd c" by auto
    then show ?thesis using inv unfolding aInv_def by auto
  qed
  have "x \<in> ?F \<longrightarrow> x \<in> T" using xK inv unfolding aInv_def by auto
  moreover have "x \<in> ?AC \<longrightarrow> x \<in> A"
  proof
    assume xa: "x \<in> ?AC"
    then have "x \<in> A \<or> (\<exists>c\<in>chiS bd x. c \<in> ?AC \<and> c \<notin> A)"
      using xK inv unfolding aInv_def by auto
    then show "x \<in> A" using ch by blast
  qed
  ultimately show ?case using xK by simp
qed

lemma card_domS: "card (domS bd) \<le> length (nodes bd)"
  unfolding domS_def by (metis card_image_le card_length le_trans List.finite_set)

lemma GetAnticone_correct:
  assumes wf: "wfDag bd" and b: "GetBlock bd hb = Some b" and n: "length (nodes bd) < n"
  shows "\<exists>A. GetAnticone n bd b None = Some A \<and> set A = anticoneOf bd hb \<and> distinct A"
proof -
  obtain r where r: "\<forall>e \<in> parentRel bd. (r (fst e) :: nat) < r (snd e)"
    and rb: "\<forall>h \<in> domS bd. r h < length (nodes bd)"
    using wf_rank[OF wf] by blast
  have "card (domS bd) < n" using card_domS[of bd] n by simp
  from GetFutureSet_correct[OF wf b this] obtain F where
    F: "GetFutureSet n bd NewBlockSet b = Some F" "set F = futureOf bd hb" by blast
  have "nodes bd \<noteq> []" using GetBlock_dom[OF b] by (auto simp: domS_def)
  then obtain ts where ts: "tips bd = Some ts" "set ts = {h \<in> domS bd. chiS bd h = {}}"
    using wf unfolding wfDag_def by (auto split: option.splits)
  have ih: "\<exists>A1. recAnticone n bd b F A0 h = Some A1 \<and> aPost bd hb A0 K0 T0 E S h A1"
    if "aInv bd hb (set A0) K0 T0 E S" "h \<in> domS bd" "r h < n" for A0 K0 T0 E S h
    using recAnticone_inv[OF wf b r F(2) that] .
  have i0: "aInv bd hb (set []) {} {} ({} \<union> set ts) {}" by (simp add: aInv_def)
  have tdom: "set ts \<subseteq> domS bd" using ts(2) by auto
  have trank: "\<forall>k\<in>set ts. r k < n" using rb tdom n by fastforce
  from recAnticone_loop[where bd = bd and hb = hb and r = r and n = n and b = b and fut = F,
      OF ih i0 tdom trank]
  obtain A K T where
    l: "forEach (\<lambda>k a. recAnticone n bd b F a k) ts [] = Some A"
      "aInv bd hb (set A) K T {} {}" "set ts \<subseteq> K" "distinct A"
    by auto
  have "anticoneOf bd hb \<subseteq> set A"
  proof
    fix x assume x: "x \<in> anticoneOf bd hb"
    then have "x \<in> domS bd" by (simp add: in_anticone)
    from anticone_complete[OF wf r rb l(2) _ this] x l(3) ts(2) show "x \<in> set A" by auto
  qed
  moreover have "set A \<subseteq> anticoneOf bd hb" using l(2) by (simp add: aInv_def)
  ultimately have "set A = anticoneOf bd hb" by auto
  then show ?thesis using F(1) ts(1) l(1,4) by (simp add: GetAnticone_def NewBlockSet_def)
qed

lemma GetAnticone_exclude:
  assumes wf: "wfDag bd" and b: "GetBlock bd hb = Some b" and n: "length (nodes bd) < n"
  shows "\<exists>A. GetAnticone n bd b (Some ex) = Some A \<and> set A = anticoneOf bd hb - set ex \<and> distinct A"
proof -
  from GetAnticone_correct[OF assms] obtain A where
    A: "GetAnticone n bd b None = Some A" "set A = anticoneOf bd hb" "distinct A" by blast
  then have "GetAnticone n bd b (Some ex) = Some (Exclude A ex)"
    by (auto simp: GetAnticone_def split: Option.bind_splits)
  then show ?thesis using A by (simp add: distinct_Exclude)
qed

text \<open>The size of the past of a block from the past of one of its parents.\<close>

lemma rel_dom: "wfDag bd \<Longrightarrow> (x, y) \<in> parentRel bd \<Longrightarrow> x \<in> domS bd \<and> y \<in> domS bd"
  using par_rel parS_dom by blast

lemma trancl_dom: "wfDag bd \<Longrightarrow> (x, y) \<in> (parentRel bd)\<^sup>+ \<Longrightarrow> x \<in> domS bd \<and> y \<in> domS bd"
  by (meson rel_dom tranclD tranclD2)

lemma pastOf_dom: "wfDag bd \<Longrightarrow> pastOf bd h \<subseteq> domS bd"
  by (auto simp: pastOf_iff dest: trancl_dom)

lemma finite_pastOf: "wfDag bd \<Longrightarrow> finite (pastOf bd h)"
  using pastOf_dom finite_domS finite_subset by blast

lemma finite_anticoneOf [simp]: "finite (anticoneOf bd h)"
  by (simp add: anticoneOf_def)

lemma past_split:
  assumes wf: "wfDag bd" and p: "p \<in> parS bd hb"
    and anti: "\<forall>q \<in> parS bd hb. (p, q) \<notin> (parentRel bd)\<^sup>+"
  shows "pastOf bd hb = insert p (pastOf bd p) \<union> (anticoneOf bd p - anticoneOf bd hb)"
proof -
  let ?R = "parentRel bd"
  have ph: "(p, hb) \<in> ?R" using p par_rel[OF wf] by simp
  show ?thesis
  proof (intro set_eqI iffI)
    fix x assume "x \<in> pastOf bd hb"
    then have xh: "(x, hb) \<in> ?R\<^sup>+" by (simp add: pastOf_iff)
    then obtain q where q: "(x, q) \<in> ?R\<^sup>*" "(q, hb) \<in> ?R" by (meson tranclD2)
    have qp: "q \<in> parS bd hb" using q(2) par_rel[OF wf] by simp
    have "(p, x) \<notin> ?R\<^sup>+"
    proof
      assume "(p, x) \<in> ?R\<^sup>+"
      then have "(p, q) \<in> ?R\<^sup>+" using q(1) by simp
      then show False using anti qp by blast
    qed
    moreover have "x \<in> domS bd" using trancl_dom[OF wf xh] by simp
    moreover have "x \<notin> anticoneOf bd hb" using xh by (simp add: in_anticone)
    ultimately show "x \<in> insert p (pastOf bd p) \<union> (anticoneOf bd p - anticoneOf bd hb)"
      by (auto simp: in_anticone pastOf_iff)
  next
    fix x assume x: "x \<in> insert p (pastOf bd p) \<union> (anticoneOf bd p - anticoneOf bd hb)"
    have hdom: "hb \<in> domS bd" using rel_dom[OF wf ph] by simp
    from x consider "x = p" | "(x, p) \<in> ?R\<^sup>+" | "x \<in> anticoneOf bd p" "x \<notin> anticoneOf bd hb"
      by (auto simp: pastOf_iff)
    then show "x \<in> pastOf bd hb"
    proof cases
      case 1 then show ?thesis using ph by (auto simp: pastOf_iff)
    next
      case 2 then show ?thesis using ph by (auto simp: pastOf_iff)
    next
      case 3
      then have "x = hb \<or> (hb, x) \<in> ?R\<^sup>+ \<or> (x, hb) \<in> ?R\<^sup>+" by (auto simp: in_anticone)
      moreover have "x \<noteq> hb" using 3(1) ph by (auto simp: in_anticone)
      moreover have "(hb, x) \<notin> ?R\<^sup>+" using 3(1) ph by (auto simp: in_anticone dest: trancl_into_trancl2)
      ultimately show ?thesis by (simp add: pastOf_iff)
    qed
  qed
qed

lemma past_count_formula:
  assumes wf: "wfDag bd" and p: "p \<in> parS bd hb"
    and anti: "\<forall>q \<in> parS bd hb. (p, q) \<notin> (parentRel bd)\<^sup>+"
  shows "card (pastOf bd hb) = card (pastOf bd p) + card (anticoneOf bd p - anticoneOf bd hb) + 1"
proof -
  have pp: "p \<notin> pastOf bd p" using wf_irrefl[OF wf] by (simp add: pastOf_iff)
  have d1: "insert p (pastOf bd p) \<inter> (anticoneOf bd p - anticoneOf bd hb) = {}"
    by (auto simp: in_anticone pastOf_iff)
  have "card (pastOf bd hb) = card (insert p (pastOf bd p)) + card (anticoneOf bd p - anticoneOf bd hb)"
    unfolding past_split[OF assms]
    by (rule card_Un_disjoint) (use d1 finite_pastOf[OF wf] in auto)
  then show ?thesis using pp finite_pastOf[OF wf] by simp
qed

lemma anticone_diff_past:
  assumes wf: "wfDag bd" and p: "p \<in> parS bd hb"
  shows "anticoneOf bd p - anticoneOf bd hb = anticoneOf bd p \<inter> pastOf bd hb"
proof -
  let ?R = "parentRel bd"
  have ph: "(p, hb) \<in> ?R" using p par_rel[OF wf] by simp
  have hdom: "hb \<in> domS bd" using rel_dom[OF wf ph] by simp
  show ?thesis
  proof (intro set_eqI iffI)
    fix x assume x: "x \<in> anticoneOf bd p - anticoneOf bd hb"
    then have "x = hb \<or> (hb, x) \<in> ?R\<^sup>+ \<or> (x, hb) \<in> ?R\<^sup>+" by (auto simp: in_anticone)
    moreover have "x \<noteq> hb" using x ph by (auto simp: in_anticone)
    moreover have "(hb, x) \<notin> ?R\<^sup>+" using x ph by (auto simp: in_anticone dest: trancl_into_trancl2)
    ultimately show "x \<in> anticoneOf bd p \<inter> pastOf bd hb" using x by (simp add: pastOf_iff)
  next
    fix x assume "x \<in> anticoneOf bd p \<inter> pastOf bd hb"
    then show "x \<in> anticoneOf bd p - anticoneOf bd hb" by (auto simp: in_anticone pastOf_iff)
  qed
qed

lemma past_single:
  assumes wf: "wfDag bd" and p: "parS bd hb = {p}"
  shows "card (pastOf bd hb) = card (pastOf bd p) + 1"
proof -
  let ?R = "parentRel bd"
  have ph: "(p, hb) \<in> ?R" using p par_rel[OF wf] by auto
  have "pastOf bd hb = insert p (pastOf bd p)"
  proof (intro set_eqI iffI)
    fix x assume "x \<in> pastOf bd hb"
    then obtain q where q: "(x, q) \<in> ?R\<^sup>*" "(q, hb) \<in> ?R" by (metis pastOf_iff tranclD2)
    then have "q = p" using p par_rel[OF wf] by auto
    then show "x \<in> insert p (pastOf bd p)" using q(1) by (auto simp: pastOf_iff dest: rtranclD)
  next
    fix x assume "x \<in> insert p (pastOf bd p)"
    then show "x \<in> pastOf bd hb" using ph by (auto simp: pastOf_iff)
  qed
  moreover have "p \<notin> pastOf bd p" using wf_irrefl[OF wf] by (simp add: pastOf_iff)
  ultimately show ?thesis using finite_pastOf[OF wf] by simp
qed

lemma past_no_parents:
  assumes wf: "wfDag bd" and p: "parS bd hb = {}"
  shows "pastOf bd hb = {}"
proof -
  have False if "(x, hb) \<in> (parentRel bd)\<^sup>+" for x
  proof -
    from that obtain q where "(q, hb) \<in> parentRel bd" by (meson tranclD2)
    then show False using p par_rel[OF wf] by auto
  qed
  then show ?thesis by (auto simp: pastOf_iff)
qed

text \<open>\<open>calculatePastBlockSetNum\<close> stores the size of the past.\<close>

lemma those_map_Some:
  "\<forall>x\<in>set xs. f x \<noteq> None \<Longrightarrow> those (map f xs) = Some (map (\<lambda>x. the (f x)) xs)"
  by (induction xs) auto

lemma calculatePastBlockSetNum_correct:
  assumes wf: "wfDag bd" and b: "GetBlock bd hb = Some b" and n: "length (nodes bd) < n"
    and gen: "hb = genesis bd \<longrightarrow> parents b = []"
    and fresh: "parents b = [] \<longrightarrow> pastSetNum b = 0"
    and counts: "\<forall>p \<in> set (parents b). \<forall>pn. GetBlock bd p = Some pn \<longrightarrow> pastSetNum pn = card (pastOf bd p)"
    and anti: "\<forall>p \<in> set (parents b). \<forall>q \<in> set (parents b). (p, q) \<notin> (parentRel bd)\<^sup>+"
  shows "\<exists>bd'. calculatePastBlockSetNum n bd b = Some bd' \<and>
           nodes bd' = map (\<lambda>(k, x). if k = hb then (k, x\<lparr>pastSetNum := card (pastOf bd hb)\<rparr>) else (k, x)) (nodes bd) \<and>
           tips bd' = tips bd \<and> genesis bd' = genesis bd"
proof -
  have bh: "bhash b = hb" using wf_bhash[OF wf b] .
  have par: "parS bd hb = set (parents b)" using b by (simp add: parS_def)
  show ?thesis
  proof (cases "parents b = []")
    case True
    then have p0: "card (pastOf bd hb) = 0" using past_no_parents[OF wf] par by simp
    have same: "map (\<lambda>(k, x). if k = hb then (k, x\<lparr>pastSetNum := 0\<rparr>) else (k, x)) (nodes bd) = nodes bd"
    proof -
      have "(if k = hb then (k, x\<lparr>pastSetNum := 0\<rparr>) else (k, x)) = (k, x)" if "(k, x) \<in> set (nodes bd)" for k x
      proof (cases "k = hb")
        case True
        then have "x = b" using that b GetBlock_mem[OF wf_distinct[OF wf]] by fastforce
        then show ?thesis using fresh \<open>parents b = []\<close> by simp
      qed simp
      then show ?thesis by (intro map_idI) auto
    qed
    show ?thesis using True same bh unfolding p0
      by (auto simp: calculatePastBlockSetNum_def updNode_def)
  next
    case False
    then have ng: "bhash b \<noteq> genesis bd" using gen bh by auto
    have pd: "\<forall>p \<in> set (parents b). GetBlock bd p \<noteq> None"
      using wf_parents_dom[OF wf b] dom_GetBlock by fastforce
    define pl where "pl = map (\<lambda>p. the (GetBlock bd p)) (parents b)"
    have th: "those (map (GetBlock bd) (parents b)) = Some pl"
      unfolding pl_def using those_map_Some[OF pd] .
    obtain p ps where pps: "parents b = p # ps" using False by (cases "parents b") auto
    have pin: "p \<in> parS bd hb" using par pps by simp
    obtain pn where pn: "GetBlock bd p = Some pn" using pd pps by auto
    have hdpl: "hd pl = pn" using pps pn by (simp add: pl_def)
    have cp: "pastSetNum pn = card (pastOf bd p)" using counts pps pn by simp
    show ?thesis
    proof (cases "length pl = 1")
      case True
      then have "ps = []" using pps by (simp add: pl_def)
      then have "parS bd hb = {p}" using par pps by simp
      from past_single[OF wf this] have eq: "card (pastOf bd hb) = pastSetNum pn + 1"
        using cp by simp
      show ?thesis unfolding eq
        using ng False th True hdpl by (simp add: calculatePastBlockSetNum_def updNode_def bh case_prod_beta)
    next
      case nl: False
      from GetAnticone_correct[OF wf b n] obtain A where
        A: "GetAnticone n bd b None = Some A" "set A = anticoneOf bd hb" by blast
      from GetAnticone_exclude[OF wf pn n, of A] obtain A2 where
        A2: "GetAnticone n bd pn (Some A) = Some A2" "set A2 = anticoneOf bd p - set A" "distinct A2"
        by blast
      have "length A2 = card (anticoneOf bd p - anticoneOf bd hb)"
        using A2(2,3) A(2) distinct_card by fastforce
      moreover have "\<forall>q \<in> parS bd hb. (p, q) \<notin> (parentRel bd)\<^sup>+" using anti par pps by simp
      ultimately have eq: "card (pastOf bd hb) = pastSetNum pn + length A2 + 1"
        using past_count_formula[OF wf pin] cp by simp
      show ?thesis unfolding eq
        using ng False th nl hdpl A(1) A2(1) by (simp add: calculatePastBlockSetNum_def updNode_def bh case_prod_beta)
    qed
  qed
qed

text \<open>The steps of \<open>AddBlock\<close> after the count leave the index as it is, up to the order heights.\<close>

lemma sameGraph_refl [simp]: "sameGraph bd bd"
  by (simp add: sameGraph_def)

lemma sameGraph_trans: "sameGraph a b \<Longrightarrow> sameGraph b c \<Longrightarrow> sameGraph a c"
  by (simp add: sameGraph_def)

lemma shape_updNode_height [simp]: "shape (updNode x (\<lambda>b. b\<lparr>height := v\<rparr>) bd) = shape bd"
  by (auto simp: shape_def updNode_def)

lemma updNode_fields [simp]:
  "tips (updNode x f bd) = tips bd" "genesis (updNode x f bd) = genesis bd"
  "tempOrder (updNode x f bd) = tempOrder bd" "lastCommonBlocks (updNode x f bd) = lastCommonBlocks bd"
  by (simp_all add: updNode_def)

lemma shape_nodes: "nodes bd' = nodes bd \<Longrightarrow> shape bd' = shape bd"
  by (simp add: shape_def)

lemma shape_tempOrder [simp]: "shape (bd\<lparr>tempOrder := x\<rparr>) = shape bd"
  by (simp add: shape_def)

lemma updateCommonOrder_same:
  "updateCommonOrder n bd tip blue rb ex cur si = Some bd' \<Longrightarrow>
     nodes bd' = nodes bd \<and> tips bd' = tips bd \<and> genesis bd' = genesis bd"
  by (auto simp: updateCommonOrder_def Let_def split: if_splits Option.bind_splits)

lemma updateCommonBlueSet_same:
  "updateCommonBlueSet n bd tip = Some bd' \<Longrightarrow>
     nodes bd' = nodes bd \<and> tips bd' = tips bd \<and> genesis bd' = genesis bd"
  unfolding updateCommonBlueSet_def
  by (auto simp: Let_def split: if_splits Option.bind_splits dest!: updateCommonOrder_same)

lemma getTempBS_same:
  "getTempBS n bd = Some (r, bd') \<Longrightarrow>
     nodes bd' = nodes bd \<and> tips bd' = tips bd \<and> genesis bd' = genesis bd \<and>
     lastCommonBlocks bd' = lastCommonBlocks bd \<and> tempOrder bd' = tempOrder bd"
  by (auto simp: getTempBS_def split: option.splits Option.bind_splits)

lemma updateHourglass_same:
  "updateHourglass n bd = Some bd' \<Longrightarrow>
     nodes bd' = nodes bd \<and> tips bd' = tips bd \<and> genesis bd' = genesis bd"
  unfolding updateHourglass_def
  by (auto simp: Let_def split: option.splits if_splits Option.bind_splits prod.splits
        dest!: getTempBS_same)

lemma setHeights_same:
  "setHeights pNum xs bd = Some bd' \<Longrightarrow>
     shape bd' = shape bd \<and> tips bd' = tips bd \<and> genesis bd' = genesis bd"
proof (induction xs arbitrary: bd)
  case Nil
  then show ?case by simp
next
  case (Cons x xs)
  show ?case
  proof (cases "Has (lastCommonBlocks bd) x")
    case True
    then show ?thesis using Cons by simp
  next
    case False
    then obtain node where "GetBlock bd x = Some node"
      and s: "setHeights pNum xs (updNode x (\<lambda>b. b\<lparr>height := pNum + length (tempOrder bd)\<rparr>)
                  (bd\<lparr>tempOrder := tempOrder bd @ [x]\<rparr>)) = Some bd'"
      using Cons.prems by (auto split: option.splits)
    from Cons.IH[OF s] show ?thesis by simp
  qed
qed

lemma updateOrder_same:
  "updateOrder n bd b = Some bd' \<Longrightarrow> sameGraph bd bd'"
  unfolding updateOrder_def sameGraph_def
  by (auto simp: Let_def split: if_splits Option.bind_splits prod.splits
        dest!: getTempBS_same setHeights_same dest: shape_nodes)

text \<open>The notions of the past depend on the ids and the links alone.\<close>

lemma shape_links: "shape bd' = shape bd \<Longrightarrow> links bd' = links bd"
proof -
  assume a: "shape bd' = shape bd"
  have "links x = map (\<lambda>kn. (fst kn, bhash (snd kn), parents (snd kn), children (snd kn))) (shape x)" for x
    by (simp add: links_def shape_def comp_def)
  then show ?thesis using a by simp
qed

lemma shape_counts: "shape bd' = shape bd \<Longrightarrow> counts bd' = counts bd"
proof -
  assume a: "shape bd' = shape bd"
  have "counts x = map (\<lambda>kn. (fst kn, pastSetNum (snd kn))) (shape x)" for x
    by (simp add: counts_def shape_def comp_def)
  then show ?thesis using a by simp
qed

lemma map_of_links_gen:
  "map_of (map (\<lambda>kn. (fst kn, bhash (snd kn), parents (snd kn), children (snd kn))) xs) h =
     map_option (\<lambda>n. (bhash n, parents n, children n)) (map_of xs h)"
  by (induction xs) auto

lemma domS_links: "domS bd = fst ` set (links bd)"
  by (force simp: domS_def links_def)

lemma parS_links: "parS bd h = (case map_of (links bd) h of None \<Rightarrow> {} | Some l \<Rightarrow> set (fst (snd l)))"
  unfolding links_def map_of_links_gen by (simp add: parS_def GetBlock_def split: option.splits)

lemma chiS_links: "chiS bd h = (case map_of (links bd) h of None \<Rightarrow> {} | Some l \<Rightarrow> set (snd (snd l)))"
  unfolding links_def map_of_links_gen by (simp add: chiS_def GetBlock_def split: option.splits)

lemma parentRel_links:
  "parentRel bd = set (concat (map (\<lambda>l. map (\<lambda>p. (p, fst l)) (fst (snd (snd l)))) (links bd)))"
  by (simp add: parentRel_def links_def comp_def)

lemma links_cong:
  assumes "links bd' = links bd"
  shows "domS bd' = domS bd" "parS bd' = parS bd" "chiS bd' = chiS bd"
    "parentRel bd' = parentRel bd" "pastOf bd' = pastOf bd" "anticoneOf bd' = anticoneOf bd"
    "length (nodes bd') = length (nodes bd)"
proof -
  show d: "domS bd' = domS bd" by (simp add: domS_links assms)
  show "parS bd' = parS bd" by (rule ext) (simp add: parS_links assms)
  show "chiS bd' = chiS bd" by (rule ext) (simp add: chiS_links assms)
  show r: "parentRel bd' = parentRel bd" by (simp add: parentRel_links assms)
  show p: "pastOf bd' = pastOf bd" by (rule ext) (simp add: pastOf_def r)
  have f: "futureOf bd' = futureOf bd" by (rule ext) (simp add: futureOf_def r)
  show "anticoneOf bd' = anticoneOf bd" by (rule ext) (simp add: anticoneOf_def d p f)
  have "length (links bd') = length (links bd)" using assms by simp
  then show "length (nodes bd') = length (nodes bd)" by (simp add: links_def)
qed

lemma wfDag_links:
  assumes l: "links bd' = links bd" and t: "tips bd' = tips bd" and wf: "wfDag bd"
  shows "wfDag bd'"
proof -
  note c = links_cong[OF l]
  have m: "map fst (nodes x) = map fst (links x)" for x by (simp add: links_def comp_def)
  have a1: "distinct (map fst (nodes bd'))" using wf l unfolding wfDag_def m by simp
  have a2: "bhash (snd kn) = fst kn \<and> set (parents (snd kn)) \<subseteq> domS bd' \<and>
            set (children (snd kn)) \<subseteq> domS bd'" if kn: "kn \<in> set (nodes bd')" for kn
  proof -
    have "(fst kn, bhash (snd kn), parents (snd kn), children (snd kn)) \<in> set (links bd')"
      using kn unfolding links_def by force
    then have "(fst kn, bhash (snd kn), parents (snd kn), children (snd kn)) \<in> set (links bd)"
      using l by simp
    then obtain kn0 where "kn0 \<in> set (nodes bd)" "fst kn0 = fst kn" "bhash (snd kn0) = bhash (snd kn)"
      "parents (snd kn0) = parents (snd kn)" "children (snd kn0) = children (snd kn)"
      unfolding links_def by auto
    then show ?thesis using wf unfolding wfDag_def c(1) by metis
  qed
  have a5: "(case tips bd' of None \<Rightarrow> nodes bd' = []
       | Some ts \<Rightarrow> set ts = {h \<in> domS bd'. chiS bd' h = {}})"
  proof -
    have "(nodes bd' = []) = (nodes bd = [])" using c(7) by auto
    then show ?thesis using wf unfolding wfDag_def t c(1) c(3) by (auto split: option.splits)
  qed
  show ?thesis
    unfolding wfDag_def
    using a1 a2 a5 wf unfolding wfDag_def c(1) c(2) c(3) c(4) c(7) by blast
qed

text \<open>Indexing a new block keeps the index well formed and the past of the older blocks.\<close>

lemma map_of_None_dom: "(map_of (nodes bd) h = None) = (h \<notin> domS bd)"
  by (simp add: domS_def map_of_eq_None_iff)

lemma AddBlock_stages:
  assumes "AddBlock n bd b = Inr bd'"
  shows "bhash b \<notin> domS bd \<and> set (parents b) \<subseteq> domS bd \<and>
     (\<exists>node bd3 bd4 bd5. GetBlock (grown bd b) (bhash b) = Some node \<and>
        calculatePastBlockSetNum n (grown bd b) node = Some bd3 \<and>
        updateCommonBlueSet n bd3 (bhash b) = Some bd4 \<and>
        updateHourglass n bd4 = Some bd5 \<and> updateOrder n bd5 b = Some bd')"
proof -
  have nd: "map_of (nodes bd) (bhash b) = None"
    using assms by (auto simp: AddBlock_def AddNode_def split: if_splits)
  have pa: "list_all (\<lambda>p. map_of (nodes bd) p \<noteq> None) (parents b)"
    using assms by (auto simp: AddBlock_def AddNode_def split: if_splits)
  have 1: "bhash b \<notin> domS bd" using nd by (simp add: map_of_None_dom)
  have 2: "set (parents b) \<subseteq> domS bd" using pa by (auto simp: list_all_iff map_of_None_dom)
  have "AddNode bd b = Inr (bd\<lparr>nodes :=
             map (\<lambda>(k, n). if k \<in> set (parents b) then (k, n\<lparr>children := Add (children n) (bhash b)\<rparr>)
                           else (k, n)) (nodes bd) @ [(bhash b, b)]\<rparr>)"
    using nd pa by (simp add: AddNode_def)
  then show ?thesis using assms 1 2
    by (auto simp: AddBlock_def grown_def Let_def split: option.splits Option.bind_splits)
qed

lemma nodes_updateTips [simp]: "nodes (updateTips bd b) = nodes bd"
  by (simp add: updateTips_def Let_def split: option.splits)

lemma nodes_grown:
  "nodes (grown bd b) =
     map (\<lambda>(k, n). if k \<in> set (parents b) then (k, n\<lparr>children := Add (children n) (bhash b)\<rparr>)
                   else (k, n)) (nodes bd) @ [(bhash b, b)]"
  by (simp add: grown_def)

lemma map_of_relink:
  "map_of (map (\<lambda>(k, n). if k \<in> P then (k, f n) else (k, n)) xs) k =
     map_option (\<lambda>n. if k \<in> P then f n else n) (map_of xs k)"
  by (induction xs) auto

lemma GetBlock_grown:
  assumes "bhash b \<notin> domS bd"
  shows "GetBlock (grown bd b) k =
     (if k = bhash b then Some b
      else map_option (\<lambda>n. if k \<in> set (parents b) then n\<lparr>children := Add (children n) (bhash b)\<rparr> else n)
             (GetBlock bd k))"
proof -
  have "map_of (nodes bd) (bhash b) = None" using assms by (simp add: map_of_None_dom)
  then show ?thesis
    unfolding GetBlock_def nodes_grown map_of_append
    by (auto simp: map_of_relink map_add_def split: option.splits)
qed

lemma fst_nodes_grown: "map fst (nodes (grown bd b)) = map fst (nodes bd) @ [bhash b]"
  by (simp add: nodes_grown comp_def case_prod_beta if_distrib)

lemma domS_grown: "domS (grown bd b) = insert (bhash b) (domS bd)"
proof -
  have d: "domS x = set (map fst (nodes x))" for x by (simp add: domS_def)
  show ?thesis unfolding d fst_nodes_grown by simp
qed

lemma parS_grown:
  assumes "bhash b \<notin> domS bd"
  shows "parS (grown bd b) k = (if k = bhash b then set (parents b) else parS bd k)"
  by (auto simp: parS_def GetBlock_grown[OF assms] split: option.splits)

lemma chiS_grown:
  assumes "bhash b \<notin> domS bd" and "children b = []"
  shows "chiS (grown bd b) k =
     (if k = bhash b then {}
      else if k \<in> set (parents b) \<and> k \<in> domS bd then insert (bhash b) (chiS bd k) else chiS bd k)"
  using assms(2) dom_GetBlock[of k bd] GetBlock_dom[of bd k]
  by (auto simp: chiS_def GetBlock_grown[OF assms(1)] split: option.splits)

lemma distinct_grown:
  assumes "distinct (map fst (nodes bd))" "bhash b \<notin> domS bd"
  shows "distinct (map fst (nodes (grown bd b)))"
proof -
  have "map fst (nodes (grown bd b)) = map fst (nodes bd) @ [bhash b]"
    by (simp add: nodes_grown comp_def case_prod_beta if_distrib)
  then show ?thesis using assms by (simp add: domS_def)
qed

lemma parentRel_grown:
  assumes wf: "wfDag bd" and nb: "bhash b \<notin> domS bd"
  shows "parentRel (grown bd b) = parentRel bd \<union> (\<lambda>p. (p, bhash b)) ` set (parents b)"
proof -
  have d: "distinct (map fst (nodes (grown bd b)))" using distinct_grown[OF wf_distinct[OF wf] nb] .
  have "(e \<in> parentRel (grown bd b)) = (e \<in> parentRel bd \<union> (\<lambda>p. (p, bhash b)) ` set (parents b))" for e
  proof -
    obtain p c where e: "e = (p, c)" by (cases e)
    have "c = bhash b \<Longrightarrow> (p, c) \<notin> parentRel bd" using rel_dom[OF wf] nb by blast
    then show ?thesis
      unfolding e parentRel_iff[OF d] parS_grown[OF nb]
      using parentRel_iff[OF wf_distinct[OF wf], of p c] by auto
  qed
  then show ?thesis by blast
qed

lemma past_grown:
  assumes wf: "wfDag bd" and nb: "bhash b \<notin> domS bd" and y: "y \<noteq> bhash b"
  shows "((x, y) \<in> (parentRel (grown bd b))\<^sup>+) = ((x, y) \<in> (parentRel bd)\<^sup>+)"
proof
  assume "(x, y) \<in> (parentRel (grown bd b))\<^sup>+"
  then show "(x, y) \<in> (parentRel bd)\<^sup>+" using y
  proof (induction rule: trancl_induct)
    case (base y)
    then show ?case unfolding parentRel_grown[OF wf nb] by auto
  next
    case (step y z)
    then have yz: "(y, z) \<in> parentRel bd" unfolding parentRel_grown[OF wf nb] by auto
    then have "y \<noteq> bhash b" using rel_dom[OF wf] nb by blast
    then show ?case using step yz by auto
  qed
next
  assume "(x, y) \<in> (parentRel bd)\<^sup>+"
  then show "(x, y) \<in> (parentRel (grown bd b))\<^sup>+"
    by (rule trancl_mono) (simp add: parentRel_grown[OF wf nb])
qed

lemma pastOf_grown:
  "wfDag bd \<Longrightarrow> bhash b \<notin> domS bd \<Longrightarrow> y \<noteq> bhash b \<Longrightarrow> pastOf (grown bd b) y = pastOf bd y"
  by (auto simp: pastOf_iff past_grown)

lemma updateTips_Some:
  "tips bd1 = Some ts \<Longrightarrow> bhash b \<notin> set ts \<Longrightarrow>
     tips (updateTips bd1 b) =
       Some (Add (filter (\<lambda>k. case GetBlock bd1 k of None \<Rightarrow> True
                                | Some node \<Rightarrow> children node = []) ts) (bhash b))"
  by (simp add: updateTips_def Let_def Has_def)

lemma tips_grown:
  assumes wf: "wfDag bd" and nb: "bhash b \<notin> domS bd" and ch: "children b = []"
  shows "\<exists>ts. tips (grown bd b) = Some ts \<and>
           set ts = {h \<in> domS (grown bd b). chiS (grown bd b) h = {}}"
proof (cases "tips bd")
  case None
  then have "nodes bd = []" using wf by (simp add: wfDag_def)
  then have "domS bd = {}" by (simp add: domS_def)
  then have "{h \<in> domS (grown bd b). chiS (grown bd b) h = {}} = {bhash b}"
    using chiS_grown[OF nb ch] by (auto simp: domS_grown)
  moreover have "tips (grown bd b) = Some [bhash b]"
    using None by (simp add: grown_def updateTips_def NewBlockSet_def Add_def)
  ultimately show ?thesis by simp
next
  case (Some ts)
  then have ts: "set ts = {h \<in> domS bd. chiS bd h = {}}" using wf by (simp add: wfDag_def)
  then have nin: "bhash b \<notin> set ts" using nb by auto
  let ?bd1 = "bd\<lparr>nodes :=
             map (\<lambda>(k, n). if k \<in> set (parents b) then (k, n\<lparr>children := Add (children n) (bhash b)\<rparr>)
                           else (k, n)) (nodes bd) @ [(bhash b, b)],
           totalBlocks := totalBlocks bd + 1, tempBlueSet := None,
           lastTime := (if lastTime bd < timestamp b then timestamp b else lastTime bd)\<rparr>"
  have gb: "GetBlock ?bd1 = GetBlock (grown bd b)"
    by (rule ext) (simp add: GetBlock_def nodes_grown)
  have g: "grown bd b = updateTips ?bd1 b" by (simp add: grown_def)
  have "tips ?bd1 = Some ts" using Some by simp
  from updateTips_Some[OF this nin] have t: "tips (grown bd b) =
      Some (Add (filter (\<lambda>k. case GetBlock (grown bd b) k of None \<Rightarrow> True
                                  | Some node \<Rightarrow> children node = []) ts) (bhash b))"
    unfolding gb g[symmetric] .
  have f: "(case GetBlock (grown bd b) k of None \<Rightarrow> True | Some node \<Rightarrow> children node = [])
            = (chiS (grown bd b) k = {})" for k
    by (simp add: chiS_def split: option.splits)
  have "set (Add (filter (\<lambda>k. chiS (grown bd b) k = {}) ts) (bhash b)) =
          {h \<in> domS (grown bd b). chiS (grown bd b) h = {}}"
    using ts chiS_grown[OF nb ch] by (auto simp: domS_grown)
  then show ?thesis unfolding t f by simp
qed

lemma wf_grown:
  assumes wf: "wfDag bd" and nb: "bhash b \<notin> domS bd" and ps: "set (parents b) \<subseteq> domS bd"
    and ch: "children b = []"
  shows "wfDag (grown bd b)"
proof -
  let ?g = "grown bd b"
  have a1: "distinct (map fst (nodes ?g))" using distinct_grown[OF wf_distinct[OF wf] nb] .
  have a2: "\<forall>kn \<in> set (nodes ?g). bhash (snd kn) = fst kn \<and>
          set (parents (snd kn)) \<subseteq> domS ?g \<and> set (children (snd kn)) \<subseteq> domS ?g"
  proof
    fix kn assume "kn \<in> set (nodes ?g)"
    then have g: "GetBlock ?g (fst kn) = Some (snd kn)"
      using GetBlock_mem[OF a1, of "fst kn" "snd kn"] by simp
    show "bhash (snd kn) = fst kn \<and>
          set (parents (snd kn)) \<subseteq> domS ?g \<and> set (children (snd kn)) \<subseteq> domS ?g"
    proof (cases "fst kn = bhash b")
      case True
      then show ?thesis using g ps ch by (auto simp: GetBlock_grown[OF nb] domS_grown)
    next
      case False
      then obtain n0 where n0: "GetBlock bd (fst kn) = Some n0"
        "snd kn = (if fst kn \<in> set (parents b) then n0\<lparr>children := Add (children n0) (bhash b)\<rparr> else n0)"
        using g by (auto simp: GetBlock_grown[OF nb])
      show ?thesis
        using wf_bhash[OF wf n0(1)] wf_parents_dom[OF wf n0(1)] wf_children_dom[OF wf n0(1)] n0(2)
        by (auto simp: domS_grown)
    qed
  qed
  have a3: "\<forall>p c. p \<in> domS ?g \<longrightarrow> c \<in> domS ?g \<longrightarrow> (c \<in> chiS ?g p) = (p \<in> parS ?g c)"
  proof (intro allI impI)
    fix p c assume "p \<in> domS ?g" "c \<in> domS ?g"
    then have pc: "p = bhash b \<or> p \<in> domS bd" "c = bhash b \<or> c \<in> domS bd" by (auto simp: domS_grown)
    have old: "p \<in> domS bd \<Longrightarrow> c \<in> domS bd \<Longrightarrow> (c \<in> chiS bd p) = (p \<in> parS bd c)"
      using wf_chi_par[OF wf] by simp
    have n1: "bhash b \<notin> chiS bd p" using chiS_dom[OF wf] nb by blast
    have n2: "bhash b \<notin> parS bd c" using parS_dom[OF wf] nb by blast
    show "(c \<in> chiS ?g p) = (p \<in> parS ?g c)"
      unfolding chiS_grown[OF nb ch] parS_grown[OF nb]
      using pc old n1 n2 nb ps by auto
  qed
  obtain r where r: "\<forall>e \<in> parentRel bd. (r (fst e) :: nat) < r (snd e)"
    and rb: "\<forall>h \<in> domS bd. r h < length (nodes bd)"
    using wf_rank[OF wf] by blast
  define r' where "r' = r(bhash b := length (nodes bd))"
  have a4: "(\<forall>e \<in> parentRel ?g. r' (fst e) < r' (snd e)) \<and> (\<forall>h \<in> domS ?g. r' h < length (nodes ?g))"
  proof (intro conjI ballI)
    fix e assume "e \<in> parentRel ?g"
    then consider "e \<in> parentRel bd" | p where "e = (p, bhash b)" "p \<in> set (parents b)"
      unfolding parentRel_grown[OF wf nb] by auto
    then show "r' (fst e) < r' (snd e)"
    proof cases
      case 1
      then have "fst e \<in> domS bd" "snd e \<in> domS bd" using rel_dom[OF wf, of "fst e" "snd e"] by auto
      then have "fst e \<noteq> bhash b" "snd e \<noteq> bhash b" using nb by auto
      then show ?thesis using r 1 by (simp add: r'_def)
    next
      case 2
      then have "p \<in> domS bd" using ps by auto
      then show ?thesis using 2 rb nb by (auto simp: r'_def)
    qed
  next
    fix h assume "h \<in> domS ?g"
    then show "r' h < length (nodes ?g)"
      using rb by (auto simp: domS_grown r'_def nodes_grown less_Suc_eq)
  qed
  obtain ts where t: "tips ?g = Some ts" "set ts = {h \<in> domS ?g. chiS ?g h = {}}"
    using tips_grown[OF wf nb ch] by blast
  show ?thesis
    unfolding wfDag_def using a1 a2 a3 a4 t by (simp (no_asm_simp)) blast
qed

text \<open>The invariants along a sequence of insertions.\<close>

lemma countsOK_counts: "countsOK bd = (\<forall>e\<in>set (counts bd). snd e = card (pastOf bd (fst e)))"
  by (simp add: countsOK_def counts_def)

lemma antichain_links:
  "antichainParents bd =
     (\<forall>l\<in>set (links bd). \<forall>p\<in>set (fst (snd (snd l))). \<forall>q\<in>set (fst (snd (snd l))). p \<notin> pastOf bd q)"
  by (simp add: antichainParents_def links_def)

lemma links_updNode_past [simp]: "links (updNode h (\<lambda>x. x\<lparr>pastSetNum := v\<rparr>) bd) = links bd"
  by (auto simp: links_def updNode_def)

lemma calc_form:
  assumes "calculatePastBlockSetNum n bd b = Some bd'"
  shows "bd' = bd \<or> (\<exists>v. bd' = updNode (bhash b) (\<lambda>x. x\<lparr>pastSetNum := v\<rparr>) bd)"
proof (cases "bhash b = genesis bd")
  case True
  then show ?thesis using assms by (auto simp: calculatePastBlockSetNum_def)
next
  case ng: False
  show ?thesis
  proof (cases "parents b = []")
    case True
    then show ?thesis using assms ng by (simp add: calculatePastBlockSetNum_def)
  next
    case False
    then obtain pl where pl: "those (map (GetBlock bd) (parents b)) = Some pl"
      using assms ng by (simp add: calculatePastBlockSetNum_def split: Option.bind_splits)
    show ?thesis
    proof (cases "length pl = 1")
      case True
      then show ?thesis using assms ng False pl by (simp add: calculatePastBlockSetNum_def) blast
    next
      case nl: False
      then obtain a where a: "GetAnticone n bd b None = Some a"
        using assms ng False pl by (simp add: calculatePastBlockSetNum_def split: Option.bind_splits)
      then obtain a2 where a2: "GetAnticone n bd (hd pl) (Some a) = Some a2"
        using assms ng False pl nl by (simp add: calculatePastBlockSetNum_def split: Option.bind_splits)
      show ?thesis using assms ng False pl nl a a2 by (simp add: calculatePastBlockSetNum_def) blast
    qed
  qed
qed

lemma calc_links:
  "calculatePastBlockSetNum n bd b = Some bd' \<Longrightarrow>
     links bd' = links bd \<and> tips bd' = tips bd \<and> genesis bd' = genesis bd"
  using calc_form[of n bd b bd'] by auto

lemma genesis_grown:
  "genesis (grown bd b) = (case tips bd of None \<Rightarrow> bhash b | Some ts \<Rightarrow> genesis bd)"
  by (simp add: grown_def updateTips_def Let_def split: option.splits)

lemma AddBlock_graph:
  assumes wf: "wfDag bd" and ok: "AddBlock n bd b = Inr bd'" and ch: "children b = []"
  shows "bhash b \<notin> domS bd" "set (parents b) \<subseteq> domS bd" "wfDag (grown bd b)"
    "links bd' = links (grown bd b)" "tips bd' = tips (grown bd b)"
    "genesis bd' = genesis (grown bd b)"
    "\<exists>bd3. calculatePastBlockSetNum n (grown bd b) b = Some bd3 \<and> counts bd' = counts bd3"
proof -
  from AddBlock_stages[OF ok] obtain node bd3 bd4 bd5 where
    nb: "bhash b \<notin> domS bd" and ps: "set (parents b) \<subseteq> domS bd"
    and g: "GetBlock (grown bd b) (bhash b) = Some node"
    and c: "calculatePastBlockSetNum n (grown bd b) node = Some bd3"
    and u1: "updateCommonBlueSet n bd3 (bhash b) = Some bd4"
    and u2: "updateHourglass n bd4 = Some bd5"
    and u3: "updateOrder n bd5 b = Some bd'"
    by blast
  have node: "node = b" using g by (simp add: GetBlock_grown[OF nb])
  show "bhash b \<notin> domS bd" "set (parents b) \<subseteq> domS bd" using nb ps by auto
  show "wfDag (grown bd b)" using wf_grown[OF wf nb ps ch] .
  from updateCommonBlueSet_same[OF u1]
  have e1: "nodes bd4 = nodes bd3" "tips bd4 = tips bd3" "genesis bd4 = genesis bd3" by auto
  have s1: "sameGraph bd3 bd4" unfolding sameGraph_def using shape_nodes[OF e1(1)] e1(2,3) by simp
  from updateHourglass_same[OF u2]
  have e2: "nodes bd5 = nodes bd4" "tips bd5 = tips bd4" "genesis bd5 = genesis bd4" by auto
  have s2: "sameGraph bd4 bd5" unfolding sameGraph_def using shape_nodes[OF e2(1)] e2(2,3) by simp
  have s3: "sameGraph bd5 bd'" using updateOrder_same[OF u3] .
  have s: "sameGraph bd3 bd'" using s1 s2 s3 sameGraph_trans by blast
  then have sh: "shape bd' = shape bd3" "tips bd' = tips bd3" "genesis bd' = genesis bd3"
    by (simp_all add: sameGraph_def)
  note shape_links[OF sh(1)] shape_counts[OF sh(1)] sh(2,3)
  then show "links bd' = links (grown bd b)" "tips bd' = tips (grown bd b)"
    "genesis bd' = genesis (grown bd b)"
    "\<exists>bd3. calculatePastBlockSetNum n (grown bd b) b = Some bd3 \<and> counts bd' = counts bd3"
    using calc_links[OF c] c node by auto
qed

lemma gInv_step:
  assumes inv: "gInv bd" and ok: "AddBlock n bd b = Inr bd'" and ch: "children b = []"
  shows "gInv bd' \<and> length (nodes bd') = Suc (length (nodes bd))"
proof -
  have wf: "wfDag bd" using inv by (simp add: gInv_def)
  note g = AddBlock_graph[OF wf ok ch]
  have w: "wfDag bd'" using wfDag_links[OF g(4) g(5) g(3)] .
  obtain ts where ts: "tips (grown bd b) = Some ts" using tips_grown[OF wf g(1) ch] by blast
  have "genesis (grown bd b) \<in> domS (grown bd b)"
    using inv by (auto simp: genesis_grown gInv_def domS_grown split: option.splits)
  then have "genesis bd' \<in> domS bd'" using g(6) links_cong(1)[OF g(4)] by simp
  moreover have "length (nodes bd') = Suc (length (nodes bd))"
    using links_cong(7)[OF g(4)] by (simp add: nodes_grown)
  ultimately show ?thesis using w ts g(5) by (simp add: gInv_def)
qed

lemma relinked_mem:
  assumes "kn \<in> set (nodes bd)"
  shows "\<exists>kn'\<in>set (nodes (grown bd b)). fst kn' = fst kn \<and> parents (snd kn') = parents (snd kn) \<and>
            pastSetNum (snd kn') = pastSetNum (snd kn)"
proof -
  let ?f = "\<lambda>(k, n). if k \<in> set (parents b) then (k, n\<lparr>children := Add (children n) (bhash b)\<rparr>)
                           else (k, n)"
  have "?f kn \<in> set (nodes (grown bd b))" using assms by (simp add: nodes_grown)
  moreover have "fst (?f kn) = fst kn \<and> parents (snd (?f kn)) = parents (snd kn) \<and>
            pastSetNum (snd (?f kn)) = pastSetNum (snd kn)"
    by (simp add: case_prod_beta)
  ultimately show ?thesis by blast
qed

lemma grown_mem:
  assumes "kn' \<in> set (nodes (grown bd b))" "fst kn' \<noteq> bhash b"
  shows "\<exists>kn\<in>set (nodes bd). fst kn' = fst kn \<and> parents (snd kn') = parents (snd kn) \<and>
            pastSetNum (snd kn') = pastSetNum (snd kn)"
proof -
  let ?f = "\<lambda>(k, n). if k \<in> set (parents b) then (k, n\<lparr>children := Add (children n) (bhash b)\<rparr>)
                           else (k, n)"
  from assms obtain kn where kn: "kn \<in> set (nodes bd)" "kn' = ?f kn"
    by (auto simp: nodes_grown)
  have "fst (?f kn) = fst kn \<and> parents (snd (?f kn)) = parents (snd kn) \<and>
            pastSetNum (snd (?f kn)) = pastSetNum (snd kn)"
    by (simp add: case_prod_beta)
  then show ?thesis using kn by blast
qed

lemma antichain_back:
  assumes inv: "gInv bd" and ok: "AddBlock n bd b = Inr bd'" and ch: "children b = []"
    and anti: "antichainParents bd'"
  shows "antichainParents (grown bd b) \<and> antichainParents bd"
proof -
  have wf: "wfDag bd" using inv by (simp add: gInv_def)
  note g = AddBlock_graph[OF wf ok ch]
  have ag: "antichainParents (grown bd b)"
    using anti unfolding antichain_links g(4) links_cong(5)[OF g(4)] .
  have "antichainParents bd"
    unfolding antichainParents_def
  proof (intro ballI)
    fix kn p q assume kn: "kn \<in> set (nodes bd)" and p: "p \<in> set (parents (snd kn))"
      and q: "q \<in> set (parents (snd kn))"
    from relinked_mem[OF kn, of b] obtain kn' where
      kn': "kn' \<in> set (nodes (grown bd b))" "parents (snd kn') = parents (snd kn)" by blast
    then have "p \<notin> pastOf (grown bd b) q" using ag p q unfolding antichainParents_def by auto
    moreover have "q \<in> domS bd" using wf kn q unfolding wfDag_def by blast
    ultimately show "p \<notin> pastOf bd q" using pastOf_grown[OF wf g(1), of q] g(1) by auto
  qed
  then show ?thesis using ag by simp
qed

lemma counts_step:
  assumes inv: "gInv bd" and cnt: "countsOK bd" and ok: "AddBlock n bd b = Inr bd'"
    and ch: "children b = []" and fresh: "pastSetNum b = 0"
    and anti: "antichainParents bd'" and n: "Suc (length (nodes bd)) < n"
  shows "countsOK bd'"
proof -
  let ?g = "grown bd b"
  let ?hb = "bhash b"
  have wf: "wfDag bd" using inv by (simp add: gInv_def)
  note g = AddBlock_graph[OF wf ok ch]
  have ag: "antichainParents ?g" using antichain_back[OF inv ok ch anti] by simp
  have gb: "GetBlock ?g ?hb = Some b" by (simp add: GetBlock_grown[OF g(1)])
  have bin: "(?hb, b) \<in> set (nodes ?g)" by (simp add: nodes_grown)
  have len: "length (nodes ?g) < n" using n by (simp add: nodes_grown)
  have gen: "?hb = genesis ?g \<longrightarrow> parents b = []"
  proof (cases "tips bd")
    case None
    then have "nodes bd = []" using wf by (simp add: wfDag_def)
    then have "domS bd = {}" by (simp add: domS_def)
    then show ?thesis using g(2) by simp
  next
    case (Some ts)
    then have "genesis bd \<in> domS bd" using inv by (simp add: gInv_def)
    then show ?thesis using g(1) Some by (auto simp: genesis_grown)
  qed
  have old: "pastSetNum (snd kn') = card (pastOf ?g (fst kn'))"
    if "kn' \<in> set (nodes ?g)" "fst kn' \<noteq> ?hb" for kn'
  proof -
    from grown_mem[OF that] obtain kn where kn: "kn \<in> set (nodes bd)" "fst kn' = fst kn"
      "pastSetNum (snd kn') = pastSetNum (snd kn)" by blast
    then have "pastSetNum (snd kn') = card (pastOf bd (fst kn'))" using cnt by (simp add: countsOK_def)
    then show ?thesis using pastOf_grown[OF wf g(1) that(2)] by simp
  qed
  have pc: "\<forall>p \<in> set (parents b). \<forall>pn. GetBlock ?g p = Some pn \<longrightarrow> pastSetNum pn = card (pastOf ?g p)"
  proof (intro ballI allI impI)
    fix p pn assume p: "p \<in> set (parents b)" and pn: "GetBlock ?g p = Some pn"
    have "p \<noteq> ?hb" using p g(1) g(2) by auto
    moreover have "(p, pn) \<in> set (nodes ?g)" using pn by (auto simp: GetBlock_def dest: map_of_SomeD)
    ultimately show "pastSetNum pn = card (pastOf ?g p)" using old[of "(p, pn)"] by simp
  qed
  have an: "\<forall>p \<in> set (parents b). \<forall>q \<in> set (parents b). (p, q) \<notin> (parentRel ?g)\<^sup>+"
    using ag bin unfolding antichainParents_def by (fastforce simp: pastOf_iff)
  from calculatePastBlockSetNum_correct[OF g(3) gb len gen _ pc an] fresh
  obtain bd3 where c: "calculatePastBlockSetNum n ?g b = Some bd3"
    and n3: "nodes bd3 = map (\<lambda>(k, x). if k = ?hb then (k, x\<lparr>pastSetNum := card (pastOf ?g ?hb)\<rparr>) else (k, x)) (nodes ?g)"
    by auto
  from g(7) c have ceq: "counts bd' = counts bd3" by auto
  have peq: "pastOf bd' = pastOf ?g" using links_cong(5)[OF g(4)] .
  show ?thesis
    unfolding countsOK_counts ceq peq
  proof
    fix e assume "e \<in> set (counts bd3)"
    then obtain kn' where kn': "kn' \<in> set (nodes ?g)"
      "e = (fst kn', if fst kn' = ?hb then card (pastOf ?g ?hb) else pastSetNum (snd kn'))"
      unfolding counts_def n3 by (auto split: if_splits)
    show "snd e = card (pastOf ?g (fst e))"
      using old[OF kn'(1)] kn'(2) by auto
  qed
qed

lemma addAll_snoc:
  "addAll n bd (bs @ [b]) = (case addAll n bd bs of Inl e \<Rightarrow> Inl e | Inr bd' \<Rightarrow> AddBlock n bd' b)"
  by (induction bs arbitrary: bd) (auto split: sum.splits)

lemma addAll_gInv:
  "gInv bd0 \<Longrightarrow> addAll n bd0 bs = Inr bd \<Longrightarrow> \<forall>b\<in>set bs. children b = [] \<Longrightarrow>
     gInv bd \<and> length (nodes bd) = length (nodes bd0) + length bs"
proof (induction bs arbitrary: bd rule: rev_induct)
  case Nil
  then show ?case by simp
next
  case (snoc b bs)
  from snoc.prems(2) obtain bdm where m: "addAll n bd0 bs = Inr bdm" "AddBlock n bdm b = Inr bd"
    by (auto simp: addAll_snoc split: sum.splits)
  from snoc.IH[OF snoc.prems(1) m(1)] snoc.prems(3)
  have "gInv bdm" "length (nodes bdm) = length (nodes bd0) + length bs" by auto
  then show ?case using gInv_step[OF _ m(2)] snoc.prems(3) by auto
qed

lemma addAll_counts:
  "gInv bd0 \<Longrightarrow> countsOK bd0 \<Longrightarrow> addAll n bd0 bs = Inr bd \<Longrightarrow>
   \<forall>b\<in>set bs. children b = [] \<and> pastSetNum b = 0 \<Longrightarrow> antichainParents bd \<Longrightarrow>
   length (nodes bd0) + length bs < n \<Longrightarrow> countsOK bd"
proof (induction bs arbitrary: bd rule: rev_induct)
  case Nil
  then show ?case by simp
next
  case (snoc b bs)
  from snoc.prems(3) obtain bdm where m: "addAll n bd0 bs = Inr bdm" "AddBlock n bdm b = Inr bd"
    by (auto simp: addAll_snoc split: sum.splits)
  have fr: "\<forall>b\<in>set bs. children b = []" "children b = []" "pastSetNum b = 0"
    using snoc.prems(4) by auto
  from addAll_gInv[OF snoc.prems(1) m(1) fr(1)]
  have gm: "gInv bdm" and lm: "length (nodes bdm) = length (nodes bd0) + length bs" by auto
  have am: "antichainParents bdm" using antichain_back[OF gm m(2) fr(2) snoc.prems(5)] by simp
  have "countsOK bdm"
    using snoc.IH[OF snoc.prems(1,2) m(1) _ am] snoc.prems(4,6) by auto
  then show ?case
    using counts_step[OF gm _ m(2) fr(2,3) snoc.prems(5)] lm snoc.prems(6) by auto
qed

lemma gInv_new: "gInv (newBlockDAG now k)"
  by (simp add: gInv_def wfDag_def newBlockDAG_def domS_def parentRel_def)

lemma countsOK_new: "countsOK (newBlockDAG now k)"
  by (simp add: countsOK_def newBlockDAG_def)



end
